theory Spec2Isabelle
  imports Complex_Main "HOL-Library.Monad_Syntax" "HOL-Library.AList"
begin

text \<open>
  A model of the StatsD exporter of \<open>exporter.go\<close>: the escaping of metric names, the
  parser of StatsD lines and the handling of one event, with the properties of the
  specification that concern them.
\<close>

section \<open>Go strings: bytes, slices and UTF-8 decoding\<close>

text \<open>
  A Go \<open>string\<close> is a sequence of bytes, here a \<open>char list\<close> (an Isabelle \<open>char\<close> is
  one byte). Indexing and slicing out of range panic in Go; a panic is the value
  \<open>None\<close> of the option monad, so every function of the exporter that slices a string
  returns an option.
\<close>

abbreviation byte :: "char \<Rightarrow> nat" where
  "byte \<equiv> of_char"

definition rune_of :: "char \<Rightarrow> int" where
  \<comment> \<open>a rune literal such as \<open>'a'\<close>\<close>
  "rune_of c = int (byte c)"

definition slice :: "string \<Rightarrow> int \<Rightarrow> int \<Rightarrow> string option" where
  \<comment> \<open>\<open>s[lo:hi]\<close>; panics unless \<open>0 <= lo <= hi <= len(s)\<close>\<close>
  "slice s lo hi =
     (if 0 \<le> lo \<and> lo \<le> hi \<and> hi \<le> int (length s)
      then Some (take (nat (hi - lo)) (drop (nat lo) s)) else None)"

definition slice_from :: "string \<Rightarrow> int \<Rightarrow> string option" where
  \<comment> \<open>\<open>s[lo:]\<close>\<close>
  "slice_from s lo = slice s lo (int (length s))"

definition slice_to :: "string \<Rightarrow> int \<Rightarrow> string option" where
  \<comment> \<open>\<open>s[:hi]\<close>\<close>
  "slice_to s hi = slice s 0 hi"

definition RuneError :: int where
  "RuneError = 0xFFFD"

definition seq_size :: "nat \<Rightarrow> nat" where
  \<comment> \<open>the length of the sequence a first byte announces; 0 for a byte that starts none\<close>
  "seq_size b0 =
     (if b0 < 0x80 then 1 else if b0 < 0xC2 then 0 else if b0 < 0xE0 then 2
      else if b0 < 0xF0 then 3 else if b0 < 0xF5 then 4 else 0)"

definition accept_lo :: "nat \<Rightarrow> nat" where
  "accept_lo b0 = (if b0 = 0xE0 then 0xA0 else if b0 = 0xF0 then 0x90 else 0x80)"

definition accept_hi :: "nat \<Rightarrow> nat" where
  "accept_hi b0 = (if b0 = 0xED then 0x9F else if b0 = 0xF4 then 0x8F else 0xBF)"

definition cont_byte :: "nat \<Rightarrow> bool" where
  \<comment> \<open>a continuation byte, between \<open>locb\<close> and \<open>hicb\<close>\<close>
  "cont_byte b = (0x80 \<le> b \<and> b \<le> 0xBF)"

definition rune2 :: "nat \<Rightarrow> nat \<Rightarrow> int" where
  "rune2 s0 s1 = int ((s0 mod 32) * 64 + s1 mod 64)"

definition rune3 :: "nat \<Rightarrow> nat \<Rightarrow> nat \<Rightarrow> int" where
  "rune3 s0 s1 s2 = int ((s0 mod 16) * 4096 + (s1 mod 64) * 64 + s2 mod 64)"

definition rune4 :: "nat \<Rightarrow> nat \<Rightarrow> nat \<Rightarrow> nat \<Rightarrow> int" where
  "rune4 s0 s1 s2 s3 =
     int ((s0 mod 8) * 262144 + (s1 mod 64) * 4096 + (s2 mod 64) * 64 + s3 mod 64)"

definition DecodeRuneInString :: "string \<Rightarrow> int \<times> nat" where
  \<comment> \<open>\<open>utf8.DecodeRuneInString\<close>: the first rune of \<open>s\<close> and its width in bytes;
      \<open>(RuneError, 1)\<close> for an invalid encoding\<close>
  "DecodeRuneInString s =
     (let n = length s in
      if n < 1 then (RuneError, 0) else
      let s0 = byte (s ! 0); sz = seq_size s0 in
      if sz = 1 then (int s0, 1)
      else if sz = 0 then (RuneError, 1)
      else if n < sz then (RuneError, 1)
      else
      let s1 = byte (s ! 1) in
      if s1 < accept_lo s0 \<or> accept_hi s0 < s1 then (RuneError, 1)
      else if sz \<le> 2 then (rune2 s0 s1, 2)
      else
      let s2 = byte (s ! 2) in
      if \<not> cont_byte s2 then (RuneError, 1)
      else if sz \<le> 3 then (rune3 s0 s1 s2, 3)
      else
      let s3 = byte (s ! 3) in
      if \<not> cont_byte s3 then (RuneError, 1)
      else (rune4 s0 s1 s2 s3, 4))"

definition RuneLen :: "int \<Rightarrow> int" where
  \<comment> \<open>\<open>utf8.RuneLen\<close>: the number of bytes of the encoding of a rune, -1 if it has none\<close>
  "RuneLen r =
     (if r < 0 then -1 else if r \<le> 0x7F then 1 else if r \<le> 0x7FF then 2
      else if 0xD800 \<le> r \<and> r \<le> 0xDFFF then -1
      else if r \<le> 0xFFFF then 3 else if r \<le> 0x10FFFF then 4 else -1)"

subsection \<open>Facts about decoding\<close>

lemma byte_lt_256: "byte c < 256"
  by (metis of_char_mod_256 mod_less_divisor zero_less_numeral)

lemma mod_window:
  fixes n k a :: nat
  assumes "a * k \<le> n" "n < a * k + k"
  shows "n mod k = n - a * k"
proof -
  have "n = (n - a * k) + a * k" using assms by simp
  then have "n mod k = ((n - a * k) + a * k) mod k" by simp
  also have "\<dots> = (n - a * k) mod k" by simp
  also have "\<dots> = n - a * k" using assms by simp
  finally show ?thesis .
qed

lemma cont_mod: "cont_byte b \<Longrightarrow> b mod 64 = b - 128"
  using mod_window [of 2 64 b] by (simp add: cont_byte_def)

lemma lead2_mod: "0xC2 \<le> (b::nat) \<Longrightarrow> b < 0xE0 \<Longrightarrow> b mod 32 = b - 192"
  using mod_window [of 6 32 b] by simp

lemma lead3_mod: "0xE0 \<le> (b::nat) \<Longrightarrow> b < 0xF0 \<Longrightarrow> b mod 16 = b - 224"
  using mod_window [of 14 16 b] by simp

lemma lead4_mod: "0xF0 \<le> (b::nat) \<Longrightarrow> b < 0xF5 \<Longrightarrow> b mod 8 = b - 240"
  using mod_window [of 30 8 b] by simp

lemma accept_cont: "accept_lo s0 \<le> s1 \<Longrightarrow> s1 \<le> accept_hi s0 \<Longrightarrow> cont_byte s1"
  by (simp add: accept_lo_def accept_hi_def cont_byte_def split: if_splits)

lemma accept_cont_not:
  "\<not> s1 < accept_lo s0 \<Longrightarrow> \<not> accept_hi s0 < s1 \<Longrightarrow> cont_byte s1"
  using accept_cont [of s0 s1] by simp

lemma rune2_bounds:
  assumes "0xC2 \<le> s0" "s0 < 0xE0" "cont_byte s1"
  shows "0x80 \<le> rune2 s0 s1 \<and> rune2 s0 s1 \<le> 0x7FF"
  using assms by (simp add: rune2_def cont_mod lead2_mod) (simp add: cont_byte_def)

lemma rune3_bounds:
  assumes "0xE0 \<le> s0" "s0 < 0xF0" "accept_lo s0 \<le> s1" "s1 \<le> accept_hi s0" "cont_byte s2"
  shows "0x800 \<le> rune3 s0 s1 s2 \<and> rune3 s0 s1 s2 \<le> 0xFFFF \<and>
         \<not> (0xD800 \<le> rune3 s0 s1 s2 \<and> rune3 s0 s1 s2 \<le> 0xDFFF)"
proof -
  have c1: "cont_byte s1" using assms by (blast intro: accept_cont)
  show ?thesis
    using assms c1
    by (simp add: rune3_def cont_mod lead3_mod)
       (simp add: cont_byte_def accept_lo_def accept_hi_def split: if_splits)
qed

lemma rune4_bounds:
  assumes "0xF0 \<le> s0" "s0 < 0xF5" "accept_lo s0 \<le> s1" "s1 \<le> accept_hi s0"
    "cont_byte s2" "cont_byte s3"
  shows "0x10000 \<le> rune4 s0 s1 s2 s3 \<and> rune4 s0 s1 s2 s3 \<le> 0x10FFFF"
proof -
  have c1: "cont_byte s1" using assms by (blast intro: accept_cont)
  show ?thesis
    using assms c1
    by (simp add: rune4_def cont_mod lead4_mod)
       (simp add: cont_byte_def accept_lo_def accept_hi_def split: if_splits)
qed


lemma seq_size_cases:
  "seq_size b = 1 \<and> b < 0x80 \<or> seq_size b = 0 \<and> 0x80 \<le> b \<or>
   seq_size b = 2 \<and> 0xC2 \<le> b \<and> b < 0xE0 \<or>
   seq_size b = 3 \<and> 0xE0 \<le> b \<and> b < 0xF0 \<or>
   seq_size b = 4 \<and> 0xF0 \<le> b \<and> b < 0xF5"
  by (simp add: seq_size_def)

lemma Decode_Nil: "DecodeRuneInString [] = (RuneError, 0)"
  by (simp add: DecodeRuneInString_def)

lemma Decode_sz1:
  "seq_size (byte c) = 1 \<Longrightarrow> DecodeRuneInString (c # s) = (int (byte c), 1)"
  by (simp add: DecodeRuneInString_def)

lemma Decode_sz0:
  "seq_size (byte c) = 0 \<Longrightarrow> DecodeRuneInString (c # s) = (RuneError, 1)"
  by (simp add: DecodeRuneInString_def)

lemma Decode_short:
  "seq_size (byte c) \<noteq> 1 \<Longrightarrow> Suc (length s) < seq_size (byte c) \<Longrightarrow>
   DecodeRuneInString (c # s) = (RuneError, 1)"
  by (simp add: DecodeRuneInString_def)

lemma Decode_sz2:
  "seq_size (byte c0) = 2 \<Longrightarrow>
   DecodeRuneInString (c0 # c1 # s) =
     (if byte c1 < accept_lo (byte c0) \<or> accept_hi (byte c0) < byte c1 then (RuneError, 1)
      else (rune2 (byte c0) (byte c1), 2))"
  by (simp add: DecodeRuneInString_def)

lemma Decode_sz3:
  "seq_size (byte c0) = 3 \<Longrightarrow>
   DecodeRuneInString (c0 # c1 # c2 # s) =
     (if byte c1 < accept_lo (byte c0) \<or> accept_hi (byte c0) < byte c1 then (RuneError, 1)
      else if \<not> cont_byte (byte c2) then (RuneError, 1)
      else (rune3 (byte c0) (byte c1) (byte c2), 3))"
  by (simp add: DecodeRuneInString_def)

lemma Decode_sz4:
  "seq_size (byte c0) = 4 \<Longrightarrow>
   DecodeRuneInString (c0 # c1 # c2 # c3 # s) =
     (if byte c1 < accept_lo (byte c0) \<or> accept_hi (byte c0) < byte c1 then (RuneError, 1)
      else if \<not> cont_byte (byte c2) then (RuneError, 1)
      else if \<not> cont_byte (byte c3) then (RuneError, 1)
      else (rune4 (byte c0) (byte c1) (byte c2) (byte c3), 4))"
  by (simp add: DecodeRuneInString_def)


lemma Decode_cases [consumes 1, case_names ascii error two three four]:
  assumes "s \<noteq> []"
  obtains
    (ascii) c t where "s = c # t" "byte c < 0x80"
      "\<And>u. DecodeRuneInString (c # u) = (int (byte c), 1)"
  | (error) c t where "s = c # t" "0x80 \<le> byte c" "DecodeRuneInString s = (RuneError, 1)"
  | (two) c0 c1 t where "s = c0 # c1 # t" "0x80 \<le> byte c0" "0x80 \<le> byte c1"
      "0x80 \<le> rune2 (byte c0) (byte c1)" "rune2 (byte c0) (byte c1) \<le> 0x7FF"
      "\<And>u. DecodeRuneInString (c0 # c1 # u) = (rune2 (byte c0) (byte c1), 2)"
  | (three) c0 c1 c2 t where "s = c0 # c1 # c2 # t"
      "0x80 \<le> byte c0" "0x80 \<le> byte c1" "0x80 \<le> byte c2"
      "0x800 \<le> rune3 (byte c0) (byte c1) (byte c2)"
      "rune3 (byte c0) (byte c1) (byte c2) \<le> 0xFFFF"
      "\<not> (0xD800 \<le> rune3 (byte c0) (byte c1) (byte c2) \<and>
          rune3 (byte c0) (byte c1) (byte c2) \<le> 0xDFFF)"
      "\<And>u. DecodeRuneInString (c0 # c1 # c2 # u) = (rune3 (byte c0) (byte c1) (byte c2), 3)"
  | (four) c0 c1 c2 c3 t where "s = c0 # c1 # c2 # c3 # t"
      "0x80 \<le> byte c0" "0x80 \<le> byte c1" "0x80 \<le> byte c2" "0x80 \<le> byte c3"
      "0x10000 \<le> rune4 (byte c0) (byte c1) (byte c2) (byte c3)"
      "rune4 (byte c0) (byte c1) (byte c2) (byte c3) \<le> 0x10FFFF"
      "\<And>u. DecodeRuneInString (c0 # c1 # c2 # c3 # u) =
            (rune4 (byte c0) (byte c1) (byte c2) (byte c3), 4)"
proof -
  from assms obtain c t where s: "s = c # t" by (cases s) auto
  consider (s1) "seq_size (byte c) = 1" "byte c < 0x80"
    | (s0) "seq_size (byte c) = 0" "0x80 \<le> byte c"
    | (s2) "seq_size (byte c) = 2" "0xC2 \<le> byte c" "byte c < 0xE0"
    | (s3) "seq_size (byte c) = 3" "0xE0 \<le> byte c" "byte c < 0xF0"
    | (s4) "seq_size (byte c) = 4" "0xF0 \<le> byte c" "byte c < 0xF5"
    using seq_size_cases [of "byte c"] by (elim disjE conjE) blast+
  then show thesis
  proof cases
    case s1
    then show thesis using s ascii [of c t] by (simp add: Decode_sz1)
  next
    case s0
    then show thesis using s error [of c t] by (simp add: Decode_sz0)
  next
    case s2
    have hi: "0x80 \<le> byte c" using s2 by simp
    show thesis
    proof (cases t)
      case Nil
      then show thesis using s s2 hi error [of c t] by (simp add: Decode_short)
    next
      case (Cons c1 t1)
      show thesis
      proof (cases "byte c1 < accept_lo (byte c) \<or> accept_hi (byte c) < byte c1")
        case True
        then show thesis using s s2 hi Cons error [of c t] by (simp add: Decode_sz2)
      next
        case False
        then have cb: "cont_byte (byte c1)" by (auto intro: accept_cont_not)
        have b: "0x80 \<le> rune2 (byte c) (byte c1) \<and> rune2 (byte c) (byte c1) \<le> 0x7FF"
          using s2 cb by (intro rune2_bounds) auto
        have d: "\<And>u. DecodeRuneInString (c # c1 # u) = (rune2 (byte c) (byte c1), 2)"
          using s2 False by (simp add: Decode_sz2)
        show thesis
          using two [of c c1 t1] s Cons hi cb b d by (simp add: cont_byte_def)
      qed
    qed
  next
    case s3
    have hi: "0x80 \<le> byte c" using s3 by simp
    show thesis
    proof (cases t)
      case Nil
      then show thesis using s s3 hi error [of c t] by (simp add: Decode_short)
    next
      case (Cons c1 t1)
      note t = Cons
      show thesis
      proof (cases t1)
        case Nil
        then show thesis using s s3 hi t error [of c t] by (simp add: Decode_short)
      next
        case (Cons c2 t2)
        show thesis
        proof (cases "byte c1 < accept_lo (byte c) \<or> accept_hi (byte c) < byte c1 \<or>
                      \<not> cont_byte (byte c2)")
          case True
          then show thesis using s s3 hi t Cons error [of c t] by (auto simp add: Decode_sz3)
        next
          case False
          then have cb: "cont_byte (byte c1)" "cont_byte (byte c2)"
            by (auto intro: accept_cont_not)
          have b: "0x800 \<le> rune3 (byte c) (byte c1) (byte c2) \<and>
                   rune3 (byte c) (byte c1) (byte c2) \<le> 0xFFFF \<and>
                   \<not> (0xD800 \<le> rune3 (byte c) (byte c1) (byte c2) \<and>
                      rune3 (byte c) (byte c1) (byte c2) \<le> 0xDFFF)"
            using s3 False by (intro rune3_bounds) auto
          have d: "\<And>u. DecodeRuneInString (c # c1 # c2 # u) =
                      (rune3 (byte c) (byte c1) (byte c2), 3)"
            using s3 False by (simp add: Decode_sz3)
          show thesis
            using three [of c c1 c2 t2] s t Cons hi cb b d by (simp add: cont_byte_def)
        qed
      qed
    qed
  next
    case s4
    have hi: "0x80 \<le> byte c" using s4 by simp
    show thesis
    proof (cases "length t < 3")
      case True
      then show thesis using s s4 hi error [of c t] by (simp add: Decode_short)
    next
      case False
      then obtain c1 c2 c3 t3 where t: "t = c1 # c2 # c3 # t3"
        by (cases t; cases "tl t"; cases "tl (tl t)") auto
      show thesis
      proof (cases "byte c1 < accept_lo (byte c) \<or> accept_hi (byte c) < byte c1 \<or>
                    \<not> cont_byte (byte c2) \<or> \<not> cont_byte (byte c3)")
        case True
        then show thesis using s s4 hi t error [of c t] by (auto simp add: Decode_sz4)
      next
        case False
        then have cb: "cont_byte (byte c1)" "cont_byte (byte c2)" "cont_byte (byte c3)"
          by (auto intro: accept_cont_not)
        have b: "0x10000 \<le> rune4 (byte c) (byte c1) (byte c2) (byte c3) \<and>
                 rune4 (byte c) (byte c1) (byte c2) (byte c3) \<le> 0x10FFFF"
          using s4 False by (intro rune4_bounds) auto
        have d: "\<And>u. DecodeRuneInString (c # c1 # c2 # c3 # u) =
                    (rune4 (byte c) (byte c1) (byte c2) (byte c3), 4)"
          using s4 False by (simp add: Decode_sz4)
        show thesis
          using four [of c c1 c2 c3 t3] s t hi cb b d by (simp add: cont_byte_def)
      qed
    qed
  qed
qed

lemma DecodeRune_width_pos: "s \<noteq> [] \<Longrightarrow> 1 \<le> snd (DecodeRuneInString s)"
  by (cases s) (simp_all add: DecodeRuneInString_def Let_def)

function runes_from :: "nat \<Rightarrow> string \<Rightarrow> (nat \<times> int \<times> nat) list" where
  "runes_from i s =
     (if s = [] then []
      else (i, DecodeRuneInString s) #
           runes_from (i + snd (DecodeRuneInString s)) (drop (snd (DecodeRuneInString s)) s))"
  by pat_completeness auto
termination
proof (relation "measure (\<lambda>(i, s). length s)")
  show "wf (measure (\<lambda>(i, s). length s))" by simp
next
  fix i :: nat and s :: string
  assume "s \<noteq> []"
  then have "1 \<le> snd (DecodeRuneInString s)" by (rule DecodeRune_width_pos)
  with \<open>s \<noteq> []\<close>
  show "((i + snd (DecodeRuneInString s), drop (snd (DecodeRuneInString s)) s), (i, s))
          \<in> measure (\<lambda>(i, s). length s)"
    by (cases s) simp_all
qed

declare runes_from.simps [simp del]

definition runes :: "string \<Rightarrow> (nat \<times> int \<times> nat) list" where
  \<comment> \<open>the iterations of \<open>for i, c := range s\<close>: index, rune and the bytes consumed\<close>
  "runes s = runes_from 0 s"

definition range_string :: "string \<Rightarrow> (nat \<times> int) list" where
  "range_string s = map (\<lambda>(i, c, w). (i, c)) (runes s)"

definition ok_rune :: "nat \<times> int \<times> nat \<Rightarrow> bool" where
  \<comment> \<open>an iteration that did not meet an encoding error\<close>
  "ok_rune x = (case x of (i, c, w) \<Rightarrow> (c, w) \<noteq> (RuneError, 1))"

definition ValidString :: "string \<Rightarrow> bool" where
  \<comment> \<open>\<open>utf8.ValidString\<close>: no position decodes to an encoding error\<close>
  "ValidString s = list_all ok_rune (runes s)"

section \<open>Name escaping\<close>

definition validChar :: "int \<Rightarrow> bool" where
  \<comment> \<open>the test of the loop of \<open>escapeMetricName\<close>: a-z, A-Z, 0-9 and the underscore\<close>
  "validChar c =
     ((rune_of CHR ''a'' \<le> c \<and> c \<le> rune_of CHR ''z'') \<or>
      (rune_of CHR ''A'' \<le> c \<and> c \<le> rune_of CHR ''Z'') \<or>
      (rune_of CHR ''0'' \<le> c \<and> c \<le> rune_of CHR ''9'') \<or> c = rune_of CHR ''_'')"

record esc_state =
  escaped :: bool
  sb :: string
  offset :: int

definition escape_step :: "string \<Rightarrow> esc_state \<Rightarrow> nat \<times> int \<Rightarrow> esc_state option" where
  \<comment> \<open>the body of the loop over \<open>range metricName\<close>\<close>
  "escape_step metricName st ic =
     (case ic of (i, c) \<Rightarrow>
        if validChar c then Some st
        else do {
          chunk \<leftarrow> slice metricName (offset st) (int i);
          Some \<lparr>escaped = True, sb = sb st @ chunk @ ''_'', offset = int i + RuneLen c\<rparr>
        })"

fun escape_loop :: "string \<Rightarrow> (nat \<times> int) list \<Rightarrow> esc_state \<Rightarrow> esc_state option" where
  "escape_loop metricName [] st = Some st"
| "escape_loop metricName (ic # ics) st =
     (case escape_step metricName st ic of
        None \<Rightarrow> None
      | Some st' \<Rightarrow> escape_loop metricName ics st')"

definition finish_escape :: "string \<Rightarrow> esc_state \<Rightarrow> string option" where
  \<comment> \<open>the end of \<open>escapeMetricName\<close>, after its loop\<close>
  "finish_escape metricName st =
     (if \<not> escaped st then Some metricName
      else if offset st < int (length metricName)
      then do { rest \<leftarrow> slice_from metricName (offset st); Some (sb st @ rest) }
      else Some (sb st))"

definition escapeMetricName :: "string \<Rightarrow> string option" where
  "escapeMetricName metricName =
     (let metricLen = length metricName in
      if metricLen = 0 then Some []
      else
        let st0 =
          (if byte CHR ''0'' \<le> byte (metricName ! 0) \<and> byte (metricName ! 0) \<le> byte CHR ''9''
           then \<lparr>escaped = True, sb = ''_'', offset = 0\<rparr>
           else \<lparr>escaped = False, sb = [], offset = 0\<rparr>)
        in
        case escape_loop metricName (range_string metricName) st0 of
          None \<Rightarrow> None
        | Some st \<Rightarrow> finish_escape metricName st)"

definition ident_char :: "char \<Rightarrow> bool" where
  \<comment> \<open>a byte of the class \<open>[A-Za-z0-9_]\<close>\<close>
  "ident_char ch = validChar (rune_of ch)"

definition digit_char :: "char \<Rightarrow> bool" where
  "digit_char ch = (byte CHR ''0'' \<le> byte ch \<and> byte ch \<le> byte CHR ''9'')"

definition esc_char :: "string \<Rightarrow> nat \<times> int \<times> nat \<Rightarrow> char" where
  \<comment> \<open>the output character for one rune of the name\<close>
  "esc_char n x = (case x of (i, c, w) \<Rightarrow> if validChar c then n ! i else CHR ''_'')"

definition escape_spec :: "string \<Rightarrow> string" where
  \<comment> \<open>the escaping as the specification words it: one output character for each rune
      of the name, the rune itself when it is in the class and an underscore otherwise,
      after one more underscore when the name starts with a digit\<close>
  "escape_spec n =
     (if n \<noteq> [] \<and> digit_char (n ! 0) then ''_'' else []) @ map (esc_char n) (runes n)"

subsection \<open>Facts about the escaping loop\<close>

lemma runes_from_Nil [simp]: "runes_from i [] = []"
  by (simp add: runes_from.simps)

lemma runes_from_Cons:
  "t \<noteq> [] \<Longrightarrow>
   runes_from i t =
     (i, DecodeRuneInString t) #
     runes_from (i + snd (DecodeRuneInString t)) (drop (snd (DecodeRuneInString t)) t)"
  by (subst runes_from.simps) simp

lemma validChar_ascii: "validChar c \<Longrightarrow> 0 \<le> c \<and> c < 0x80"
  by (auto simp add: validChar_def rune_of_def)

lemma Decode_validChar:
  assumes "t \<noteq> []" "validChar (fst (DecodeRuneInString t))"
  shows "DecodeRuneInString t = (rune_of (t ! 0), 1) \<and> ident_char (t ! 0)"
  using assms(1)
proof (cases rule: Decode_cases)
  case (ascii c u)
  then show ?thesis using assms(2) by (simp add: rune_of_def ident_char_def)
next
  case (error c u)
  then show ?thesis using assms(2) validChar_ascii [of RuneError] by (simp add: RuneError_def)
next
  case (two c0 c1 u)
  then show ?thesis using assms(2) validChar_ascii [of "rune2 (byte c0) (byte c1)"] by simp
next
  case (three c0 c1 c2 u)
  then show ?thesis using assms(2) validChar_ascii [of "rune3 (byte c0) (byte c1) (byte c2)"] by simp
next
  case (four c0 c1 c2 c3 u)
  then show ?thesis using assms(2) validChar_ascii [of "rune4 (byte c0) (byte c1) (byte c2) (byte c3)"] by simp
qed

lemma Decode_ident:
  "ident_char c \<Longrightarrow> DecodeRuneInString (c # u) = (rune_of c, 1)"
  using validChar_ascii [of "rune_of c"]
  by (simp add: ident_char_def rune_of_def Decode_sz1 seq_size_def)

lemma Decode_width_le: "t \<noteq> [] \<Longrightarrow> snd (DecodeRuneInString t) \<le> length t"
  by (cases rule: Decode_cases) auto

lemma Decode_RuneLen_ge:
  "t \<noteq> [] \<Longrightarrow> int (snd (DecodeRuneInString t)) \<le> RuneLen (fst (DecodeRuneInString t))"
  by (cases rule: Decode_cases) (auto simp add: RuneLen_def RuneError_def)

lemma Decode_RuneLen_eq:
  "t \<noteq> [] \<Longrightarrow> DecodeRuneInString t \<noteq> (RuneError, 1) \<Longrightarrow>
   RuneLen (fst (DecodeRuneInString t)) = int (snd (DecodeRuneInString t))"
  by (cases rule: Decode_cases) (auto simp add: RuneLen_def)


definition ident_str :: "string \<Rightarrow> bool" where
  "ident_str t = list_all ident_char t"

definition good_name :: "string \<Rightarrow> bool" where
  "good_name r = (ident_str r \<and> (r = [] \<or> \<not> digit_char (r ! 0)))"

definition esc_inv :: "string \<Rightarrow> nat \<Rightarrow> nat \<Rightarrow> esc_state \<Rightarrow> bool" where
  "esc_inv s i p st =
     (p \<le> i \<and> i \<le> length s \<and> int p \<le> offset st \<and> ident_str (sb st) \<and>
      (\<forall>k. p \<le> k \<and> k < i \<longrightarrow> ident_char (s ! k)) \<and>
      (escaped st \<longleftrightarrow> sb st \<noteq> []) \<and>
      (sb st \<noteq> [] \<longrightarrow> \<not> digit_char (sb st ! 0)) \<and>
      (sb st = [] \<longrightarrow> offset st = 0 \<and> p = 0 \<and> (s \<noteq> [] \<longrightarrow> \<not> digit_char (s ! 0))))"

lemma in_set_take_drop:
  "x \<in> set (take n (drop m s)) \<Longrightarrow> \<exists>k. m \<le> k \<and> k < m + n \<and> k < length s \<and> x = s ! k"
proof -
  assume "x \<in> set (take n (drop m s))"
  then obtain j where j: "j < length (take n (drop m s))" "x = take n (drop m s) ! j"
    by (auto simp add: in_set_conv_nth)
  then have "j < n" "m + j < length s" by auto
  with j have "x = s ! (m + j)" by simp
  with \<open>j < n\<close> \<open>m + j < length s\<close> show ?thesis by (intro exI [of _ "m + j"]) simp
qed

lemma slice_Some:
  "slice s lo hi = Some chunk \<Longrightarrow>
   0 \<le> lo \<and> lo \<le> hi \<and> hi \<le> int (length s) \<and> chunk = take (nat (hi - lo)) (drop (nat lo) s)"
  by (auto simp add: slice_def split: if_splits)

lemma ident_str_append [simp]: "ident_str (a @ b) \<longleftrightarrow> ident_str a \<and> ident_str b"
  by (simp add: ident_str_def)

lemma ident_str_iff: "ident_str t \<longleftrightarrow> (\<forall>c \<in> set t. ident_char c)"
  by (simp add: ident_str_def list_all_iff)

lemma ident_underscore: "ident_char CHR ''_''" "\<not> digit_char CHR ''_''"
  by (simp_all add: ident_char_def validChar_def rune_of_def digit_char_def)

lemma esc_step_inv:
  assumes inv: "esc_inv s i p st" and i: "i < length s"
    and step: "escape_step s st (i, fst (DecodeRuneInString (drop i s))) = Some st'"
  shows "\<exists>p'. esc_inv s (i + snd (DecodeRuneInString (drop i s))) p' st'"
proof -
  let ?t = "drop i s"
  let ?c = "fst (DecodeRuneInString ?t)"
  let ?w = "snd (DecodeRuneInString ?t)"
  have ne: "?t \<noteq> []" using i by simp
  have wle: "i + ?w \<le> length s" using Decode_width_le [OF ne] i by simp
  have wpos: "1 \<le> ?w" using DecodeRune_width_pos [OF ne] .
  show ?thesis
  proof (cases "validChar ?c")
    case True
    then have st: "st' = st" using step by (simp add: escape_step_def)
    from Decode_validChar [OF ne True]
    have w1: "?w = 1" and id: "ident_char (s ! i)" using i by simp_all
    have "\<forall>k. p \<le> k \<and> k < i + 1 \<longrightarrow> ident_char (s ! k)"
      using inv id by (auto simp add: esc_inv_def less_Suc_eq)
    then have "esc_inv s (i + ?w) p st'"
      using inv st w1 wle by (simp add: esc_inv_def)
    then show ?thesis ..
  next
    case False
    then obtain chunk where ch: "slice s (offset st) (int i) = Some chunk"
      and st: "st' = \<lparr>escaped = True, sb = sb st @ chunk @ ''_'', offset = int i + RuneLen ?c\<rparr>"
      using step by (auto simp add: escape_step_def split: bind_splits)
    from slice_Some [OF ch]
    have off: "0 \<le> offset st" "offset st \<le> int i"
      and chunk: "chunk = take (nat (int i - offset st)) (drop (nat (offset st)) s)" by auto
    have "int p \<le> offset st" using inv by (simp add: esc_inv_def)
    then have pk: "p \<le> nat (offset st)" by linarith
    have idc: "ident_str chunk"
      unfolding ident_str_iff
    proof
      fix x assume "x \<in> set chunk"
      then obtain k where k: "nat (offset st) \<le> k" "k < nat (offset st) + nat (int i - offset st)"
          "x = s ! k"
        unfolding chunk by (blast dest: in_set_take_drop)
      then have "p \<le> k" "k < i" using pk off by auto
      then show "ident_char x" using inv k by (simp add: esc_inv_def)
    qed
    have hd: "\<not> digit_char ((sb st @ chunk @ ''_'') ! 0)"
    proof (cases "sb st = []")
      case False
      then show ?thesis using inv by (simp add: esc_inv_def nth_append)
    next
      case True
      then have o0: "offset st = 0" and s0: "\<not> digit_char (s ! 0)"
        using inv i by (auto simp add: esc_inv_def)
      show ?thesis
      proof (cases "i = 0")
        case True
        then show ?thesis using \<open>sb st = []\<close> chunk o0 by (simp add: ident_underscore)
      next
        case False
        then have "chunk \<noteq> []" "chunk ! 0 = s ! 0" using chunk o0 i by auto
        then show ?thesis using \<open>sb st = []\<close> s0 by (simp add: nth_append)
      qed
    qed
    have rl: "int (i + ?w) \<le> offset st'"
      using Decode_RuneLen_ge [OF ne] st by simp
    have "esc_inv s (i + ?w) (i + ?w) st'"
      using inv idc hd rl wle st by (simp add: esc_inv_def ident_underscore ident_str_def)
    then show ?thesis ..
  qed
qed


abbreviation range_proj :: "(nat \<times> int \<times> nat) list \<Rightarrow> (nat \<times> int) list" where
  "range_proj \<equiv> map (\<lambda>(i, c, w). (i, c))"

lemma esc_loop_inv:
  assumes "esc_inv s i p st" "t = drop i s"
    "escape_loop s (range_proj (runes_from i t)) st = Some st'"
  shows "\<exists>p'. esc_inv s (length s) p' st'"
  using assms
proof (induction i t arbitrary: p st rule: runes_from.induct)
  case (1 i t)
  show ?case
  proof (cases "t = []")
    case True
    then have "i = length s" using 1(2,3) by (simp add: esc_inv_def)
    moreover have "st' = st" using True 1(4) by simp
    ultimately show ?thesis using 1(2) by blast
  next
    case False
    let ?c = "fst (DecodeRuneInString t)"
    let ?w = "snd (DecodeRuneInString t)"
    have i: "i < length s" using False 1(3) by simp
    from 1(4) False obtain st1 where
      s1: "escape_step s st (i, ?c) = Some st1" and
      l1: "escape_loop s (range_proj (runes_from (i + ?w) (drop ?w t))) st1 = Some st'"
      by (subst (asm) runes_from_Cons) (auto simp add: split_def split: option.splits)
    from esc_step_inv [OF 1(2) i] s1 1(3)
    obtain p1 where "esc_inv s (i + ?w) p1 st1" by auto
    moreover have "drop ?w t = drop (i + ?w) s" using 1(3) by (simp add: add.commute)
    ultimately show ?thesis using "1.IH" [OF False _ _ l1] by blast
  qed
qed

lemma esc_inv_init:
  "s \<noteq> [] \<Longrightarrow>
   esc_inv s 0 0
     (if byte CHR ''0'' \<le> byte (s ! 0) \<and> byte (s ! 0) \<le> byte CHR ''9''
      then \<lparr>escaped = True, sb = ''_'', offset = 0\<rparr>
      else \<lparr>escaped = False, sb = [], offset = 0\<rparr>)"
  by (simp add: esc_inv_def ident_str_def ident_underscore digit_char_def)

lemma esc_inv_finish:
  assumes "esc_inv s (length s) p st"
  shows "\<exists>r. finish_escape s st = Some r \<and> good_name r"
proof -
  have id: "\<And>k. p \<le> k \<Longrightarrow> k < length s \<Longrightarrow> ident_char (s ! k)"
    using assms by (simp add: esc_inv_def)
  have ip: "int p \<le> offset st" using assms by (simp add: esc_inv_def)
  show ?thesis
  proof (cases "escaped st")
    case False
    then have "sb st = []" using assms by (simp add: esc_inv_def)
    then have "p = 0" "s = [] \<or> \<not> digit_char (s ! 0)" using assms by (auto simp add: esc_inv_def)
    moreover have "ident_str s"
      unfolding ident_str_iff using id \<open>p = 0\<close> by (auto simp add: in_set_conv_nth)
    ultimately show ?thesis using False by (simp add: finish_escape_def good_name_def)
  next
    case True
    then have ne: "sb st \<noteq> []" and dg: "\<not> digit_char (sb st ! 0)" and isb: "ident_str (sb st)"
      using assms by (auto simp add: esc_inv_def)
    show ?thesis
    proof (cases "offset st < int (length s)")
      case False
      then show ?thesis using True ne dg isb by (simp add: finish_escape_def good_name_def)
    next
      case lt: True
      have o: "0 \<le> offset st" using ip by linarith
      have rest: "slice_from s (offset st) = Some (drop (nat (offset st)) s)"
        using lt o by (simp add: slice_from_def slice_def)
      have "ident_str (drop (nat (offset st)) s)"
        unfolding ident_str_iff
      proof
        fix x assume "x \<in> set (drop (nat (offset st)) s)"
        then have "x \<in> set (take (length s) (drop (nat (offset st)) s))" by simp
        then obtain k where "nat (offset st) \<le> k" "k < length s" "x = s ! k"
          by (blast dest: in_set_take_drop)
        moreover have "p \<le> nat (offset st)" using ip by linarith
        ultimately show "ident_char x" using id by simp
      qed
      then show ?thesis
        using True lt rest ne dg isb by (simp add: finish_escape_def good_name_def nth_append)
    qed
  qed
qed

lemma escapeMetricName_good:
  assumes "escapeMetricName n = Some r"
  shows "good_name r"
proof (cases "n = []")
  case True
  then show ?thesis using assms by (simp add: escapeMetricName_def good_name_def ident_str_def)
next
  case False
  let ?st0 = "if byte CHR ''0'' \<le> byte (n ! 0) \<and> byte (n ! 0) \<le> byte CHR ''9''
      then \<lparr>escaped = True, sb = ''_'', offset = 0\<rparr>
      else \<lparr>escaped = False, sb = [], offset = 0\<rparr>"
  from assms False obtain st where
    l: "escape_loop n (range_string n) ?st0 = Some st" and f: "finish_escape n st = Some r"
    by (auto simp add: escapeMetricName_def Let_def split: option.splits)
  from esc_loop_inv [OF esc_inv_init [OF False], of n st] l
  obtain p where "esc_inv n (length n) p st" by (auto simp add: range_string_def runes_def)
  from esc_inv_finish [OF this] f show ?thesis by simp
qed

lemma escape_loop_ident:
  "ident_str t \<Longrightarrow> escape_loop s (range_proj (runes_from i t)) st = Some st"
proof (induction t arbitrary: i)
  case Nil
  then show ?case by simp
next
  case (Cons c t)
  then have c: "ident_char c" and t: "ident_str t" by (simp_all add: ident_str_def)
  have d: "DecodeRuneInString (c # t) = (rune_of c, 1)" using c by (rule Decode_ident)
  show ?case
    using c Cons.IH [OF t]
    by (subst runes_from_Cons) (simp_all add: d escape_step_def ident_char_def)
qed

lemma escapeMetricName_ident:
  assumes "good_name r"
  shows "escapeMetricName r = Some r"
proof (cases "r = []")
  case True
  then show ?thesis by (simp add: escapeMetricName_def)
next
  case False
  then have nd: "\<not> digit_char (r ! 0)" and id: "ident_str r"
    using assms by (auto simp add: good_name_def)
  show ?thesis
    using False nd escape_loop_ident [OF id, of r 0]
    by (auto simp add: escapeMetricName_def range_string_def runes_def digit_char_def
        finish_escape_def)
qed

lemma escape_loop_valid:
  assumes "t = drop i s" "list_all ok_rune (runes_from i t)"
    "0 \<le> offset st" "offset st \<le> int i" "i \<le> length s"
  shows "\<exists>st'. escape_loop s (range_proj (runes_from i t)) st = Some st' \<and>
           0 \<le> offset st' \<and> offset st' \<le> int (length s) \<and>
           sb st' @ drop (nat (offset st')) s =
             sb st @ drop (nat (offset st)) (take i s) @ map (esc_char s) (runes_from i t) \<and>
           (escaped st' \<longleftrightarrow> escaped st \<or> \<not> list_all (\<lambda>x. validChar (fst (snd x))) (runes_from i t)) \<and>
           (list_all (\<lambda>x. validChar (fst (snd x))) (runes_from i t) \<longrightarrow> st' = st)"
  using assms
proof (induction i t arbitrary: st rule: runes_from.induct)
  case (1 i t)
  show ?case
  proof (cases "t = []")
    case True
    then have "i = length s" using 1(2,6) by simp
    then show ?thesis using True 1(4,5) by simp
  next
    case False
    let ?c = "fst (DecodeRuneInString t)"
    let ?w = "snd (DecodeRuneInString t)"
    have i: "i < length s" using False 1(2) by simp
    have wle: "i + ?w \<le> length s" using Decode_width_le [OF False] 1(2) i by simp
    have dr: "drop ?w t = drop (i + ?w) s" using 1(2) by (simp add: add.commute)
    have rs: "runes_from i t = (i, ?c, ?w) # runes_from (i + ?w) (drop ?w t)"
      using runes_from_Cons [OF False, of i] by simp
    have "list_all ok_rune ((i, ?c, ?w) # runes_from (i + ?w) (drop ?w t))"
      using 1(3) rs by simp
    then have ok0: "ok_rune (i, ?c, ?w)"
      and okr: "list_all ok_rune (runes_from (i + ?w) (drop ?w t))"
      by simp_all
    have ok: "DecodeRuneInString t \<noteq> (RuneError, 1)"
      using ok0 by (cases "DecodeRuneInString t") (simp add: ok_rune_def)
    show ?thesis
    proof (cases "validChar ?c")
      case True
      from Decode_validChar [OF False True] have w1: "?w = 1" by simp
      have tk: "drop (nat (offset st)) (take (i + ?w) s) =
                drop (nat (offset st)) (take i s) @ [s ! i]"
        using w1 i 1(4,5) by (simp add: take_Suc_conv_app_nth)
      from "1.IH" [OF False dr okr 1(4) _ wle, of ] 1(5)
      obtain st' where st':
        "escape_loop s (range_proj (runes_from (i + ?w) (drop ?w t))) st = Some st'"
        "0 \<le> offset st'" "offset st' \<le> int (length s)"
        "sb st' @ drop (nat (offset st')) s =
           sb st @ drop (nat (offset st)) (take (i + ?w) s) @
           map (esc_char s) (runes_from (i + ?w) (drop ?w t))"
        "escaped st' \<longleftrightarrow> escaped st \<or>
           \<not> list_all (\<lambda>x. validChar (fst (snd x))) (runes_from (i + ?w) (drop ?w t))"
        "list_all (\<lambda>x. validChar (fst (snd x))) (runes_from (i + ?w) (drop ?w t)) \<longrightarrow> st' = st"
        by auto
      show ?thesis
        apply (rule exI [of _ st'])
        apply (subst rs)+
        using st' True tk
        apply (simp add: escape_step_def esc_char_def split_def)
        done
    next
      case inv: False
      let ?st1 = "\<lparr>escaped = True,
          sb = sb st @ take (nat (int i - offset st)) (drop (nat (offset st)) s) @ ''_'',
          offset = int i + RuneLen ?c\<rparr>"
      have sl: "slice s (offset st) (int i) =
                  Some (take (nat (int i - offset st)) (drop (nat (offset st)) s))"
        using 1(4,5,6) by (simp add: slice_def)
      have step: "escape_step s st (i, ?c) = Some ?st1"
        using inv sl by (simp add: escape_step_def)
      have rl: "RuneLen ?c = int ?w" using Decode_RuneLen_eq [OF False ok] .
      have o1: "0 \<le> offset ?st1" "offset ?st1 \<le> int (i + ?w)" using rl by simp_all
      have ch: "take (nat (int i - offset st)) (drop (nat (offset st)) s) =
                drop (nat (offset st)) (take i s)"
        using 1(4,5) by (simp add: drop_take nat_diff_distrib)
      from "1.IH" [OF False dr okr o1 wle]
      obtain st' where st':
        "escape_loop s (range_proj (runes_from (i + ?w) (drop ?w t))) ?st1 = Some st'"
        "0 \<le> offset st'" "offset st' \<le> int (length s)"
        "sb st' @ drop (nat (offset st')) s =
           sb ?st1 @ drop (nat (offset ?st1)) (take (i + ?w) s) @
           map (esc_char s) (runes_from (i + ?w) (drop ?w t))"
        "escaped st' \<longleftrightarrow> escaped ?st1 \<or>
           \<not> list_all (\<lambda>x. validChar (fst (snd x))) (runes_from (i + ?w) (drop ?w t))"
        by auto
      have e: "drop (nat (offset ?st1)) (take (i + ?w) s) = []" using rl by simp
      show ?thesis
        apply (rule exI [of _ st'])
        apply (subst rs)+
        using st' inv step e ch
        apply (simp add: esc_char_def split_def)
        done
    qed
  qed
qed

lemma escapeMetricName_valid:
  assumes "ValidString n"
  shows "escapeMetricName n = Some (escape_spec n)"
proof (cases "n = []")
  case True
  then show ?thesis by (simp add: escapeMetricName_def escape_spec_def runes_def)
next
  case False
  let ?st0 = "if byte CHR ''0'' \<le> byte (n ! 0) \<and> byte (n ! 0) \<le> byte CHR ''9''
      then \<lparr>escaped = True, sb = ''_'', offset = 0\<rparr>
      else \<lparr>escaped = False, sb = [], offset = 0\<rparr>"
  have v: "list_all ok_rune (runes_from 0 n)" using assms by (simp add: ValidString_def runes_def)
  have o: "0 \<le> offset ?st0" "offset ?st0 \<le> int 0" by simp_all
  from escape_loop_valid [OF _ v o, of n]
  obtain st' where st':
    "escape_loop n (range_proj (runes_from 0 n)) ?st0 = Some st'"
    "0 \<le> offset st'" "offset st' \<le> int (length n)"
    "sb st' @ drop (nat (offset st')) n = sb ?st0 @ map (esc_char n) (runes_from 0 n)"
    "escaped st' \<longleftrightarrow> escaped ?st0 \<or>
       \<not> list_all (\<lambda>x. validChar (fst (snd x))) (runes_from 0 n)"
    "list_all (\<lambda>x. validChar (fst (snd x))) (runes_from 0 n) \<longrightarrow> st' = ?st0"
    by auto
  have sp: "escape_spec n = sb ?st0 @ map (esc_char n) (runes_from 0 n)"
    using False by (simp add: escape_spec_def digit_char_def runes_def)
  have fin: "finish_escape n st' = Some (escape_spec n)"
  proof (cases "escaped st'")
    case False
    then have "st' = ?st0" using st'(5,6) by blast
    then have "sb st' @ drop (nat (offset st')) n = n" using False by (auto split: if_splits)
    then show ?thesis using False st'(4) sp by (simp add: finish_escape_def)
  next
    case True
    show ?thesis
    proof (cases "offset st' < int (length n)")
      case lt: True
      then have "slice_from n (offset st') = Some (drop (nat (offset st')) n)"
        using st'(2) by (simp add: slice_from_def slice_def)
      then show ?thesis using True lt st'(4) sp by (simp add: finish_escape_def)
    next
      case ge: False
      then have "drop (nat (offset st')) n = []" using st'(3) by simp
      then show ?thesis using True ge st'(4) sp by (simp add: finish_escape_def)
    qed
  qed
  show ?thesis
    using False st'(1) fin by (simp add: escapeMetricName_def range_string_def runes_def)
qed

subsection \<open>Evaluating the string functions on literals\<close>

lemmas utf8_eval =
  runes_def runes_from.simps range_string_def DecodeRuneInString_def seq_size_def
  accept_lo_def accept_hi_def cont_byte_def rune2_def rune3_def rune4_def
  RuneError_def RuneLen_def ValidString_def ok_rune_def

lemmas escape_eval =
  escapeMetricName_def finish_escape_def escape_step_def validChar_def rune_of_def
  slice_def slice_from_def slice_to_def escape_spec_def esc_char_def digit_char_def
  good_name_def ident_str_def ident_char_def

section \<open>Claims about name escaping\<close>

text \<open>
  C1 (as amended). For every metric name that is valid UTF-8, \<open>escapeMetricName\<close> returns
  the name with every rune outside \<open>[A-Za-z0-9_]\<close> (a multibyte rune counts once) replaced
  by exactly one underscore, after one more underscore when the name starts with a digit.
  The result has only characters of \<open>[A-Za-z0-9_]\<close> and does not start with a digit, and a
  name that already is of that form is returned unchanged. The claim as stated, for every
  string, fails: on a name that is not valid UTF-8 the function can panic.
\<close>

theorem escapeMetricName_valid_utf8:
  "ValidString n \<Longrightarrow>
     escapeMetricName n = Some (escape_spec n) \<and> good_name (escape_spec n) \<and>
     (good_name n \<longrightarrow> escape_spec n = n)"
proof -
  assume v: "ValidString n"
  then have e: "escapeMetricName n = Some (escape_spec n)" by (rule escapeMetricName_valid)
  then have g: "good_name (escape_spec n)" by (rule escapeMetricName_good)
  have "good_name n \<longrightarrow> escape_spec n = n"
    using e escapeMetricName_ident [of n] by auto
  with e g show ?thesis by simp
qed

theorem escapeMetricName_valid_utf8_witness:
  "ValidString [char_of (0xC3 :: nat), char_of (0xA9 :: nat), CHR ''.'', CHR ''x''] \<and>
   escapeMetricName [char_of (0xC3 :: nat), char_of (0xA9 :: nat), CHR ''.'', CHR ''x''] =
     Some ''__x'' \<and>
   ValidString ''1bad'' \<and> escapeMetricName ''1bad'' = Some ''_1bad'' \<and>
   good_name ''foo_bar'' \<and> escapeMetricName ''foo_bar'' = Some ''foo_bar''"
proof -
  let ?n = "[char_of (0xC3 :: nat), char_of (0xA9 :: nat), CHR ''.'', CHR ''x'']"
  have v1: "ValidString ?n" by (simp add: utf8_eval)
  have s1: "escape_spec ?n = ''__x''" by (simp add: utf8_eval escape_eval)
  have v2: "ValidString ''1bad''" by (simp add: utf8_eval)
  have s2: "escape_spec ''1bad'' = ''_1bad''" by (simp add: utf8_eval escape_eval)
  have v3: "ValidString ''foo_bar''" by (simp add: utf8_eval)
  have g3: "good_name ''foo_bar''" by (simp add: escape_eval)
  show ?thesis
    using escapeMetricName_valid_utf8 [OF v1] escapeMetricName_valid_utf8 [OF v2]
      escapeMetricName_valid_utf8 [OF v3] v1 v2 s1 s2 g3
    by simp
qed

theorem escapeMetricName_invalid_utf8_panics:
  "escapeMetricName [char_of (0xFF :: nat), CHR ''a'', char_of (0xFF :: nat)] = None"
  by (simp add: utf8_eval escape_eval)

text \<open>
  C2. \<open>escapeMetricName\<close> is idempotent: escaping the result of an escaping returns it
  unchanged. The composition is the one of the option monad, so the equation holds for
  every string: whenever the first call returns a name, the second call returns the same
  name, and where the first call panics there is no result to escape. On every name of
  valid UTF-8 both calls return.
\<close>

theorem escapeMetricName_idempotent:
  "escapeMetricName n \<bind> escapeMetricName = escapeMetricName n \<and>
   (ValidString n \<longrightarrow> (\<exists>r. escapeMetricName n = Some r \<and> escapeMetricName r = Some r))"
proof
  show "escapeMetricName n \<bind> escapeMetricName = escapeMetricName n"
    by (cases "escapeMetricName n")
       (simp_all add: escapeMetricName_ident escapeMetricName_good)
  show "ValidString n \<longrightarrow> (\<exists>r. escapeMetricName n = Some r \<and> escapeMetricName r = Some r)"
    using escapeMetricName_valid [of n]
    by (auto intro: escapeMetricName_ident escapeMetricName_good)
qed

theorem escapeMetricName_idempotent_witness:
  "ValidString ''9.a-b'' \<and> escapeMetricName ''9.a-b'' = Some ''_9_a_b'' \<and>
   escapeMetricName ''_9_a_b'' = Some ''_9_a_b''"
proof -
  have v: "ValidString ''9.a-b''" by (simp add: utf8_eval)
  have e: "escapeMetricName ''9.a-b'' = Some ''_9_a_b''" by (simp add: utf8_eval escape_eval)
  show ?thesis using escapeMetricName_idempotent [of "''9.a-b''"] v e by simp
qed

section \<open>The line parser\<close>

subsection \<open>Library functions of \<open>strings\<close>\<close>

primrec Split :: "string \<Rightarrow> char \<Rightarrow> string list" where
  \<comment> \<open>\<open>strings.Split(s, sep)\<close> for a separator of one byte\<close>
  "Split [] sep = [[]]"
| "Split (c # s) sep =
     (if c = sep then [] # Split s sep
      else (c # hd (Split s sep)) # tl (Split s sep))"

definition SplitN2 :: "string \<Rightarrow> char \<Rightarrow> string list" where
  \<comment> \<open>\<open>strings.SplitN(s, sep, 2)\<close>: cut at the first separator, if there is one\<close>
  "SplitN2 s sep =
     (if sep \<in> set s
      then [takeWhile (\<lambda>c. c \<noteq> sep) s, drop 1 (dropWhile (\<lambda>c. c \<noteq> sep) s)]
      else [s])"

definition HasPrefix :: "string \<Rightarrow> string \<Rightarrow> bool" where
  "HasPrefix s p = (take (length p) s = p)"

primrec Contains :: "string \<Rightarrow> string \<Rightarrow> bool" where
  \<comment> \<open>\<open>strings.Contains(s, substr)\<close>\<close>
  "Contains [] sub = (sub = [])"
| "Contains (c # s) sub = (HasPrefix (c # s) sub \<or> Contains s sub)"

primrec Index :: "string \<Rightarrow> string \<Rightarrow> int" where
  \<comment> \<open>\<open>strings.Index(s, substr)\<close>: the first position of \<open>substr\<close>, or -1\<close>
  "Index [] sub = (if sub = [] then 0 else -1)"
| "Index (c # s) sub =
     (if HasPrefix (c # s) sub then 0
      else if Index s sub < 0 then -1 else Index s sub + 1)"

subsection \<open>Data\<close>

text \<open>
  The labels of a line are one Go map, shared by all its events. The model keeps it as
  an association list with distinct keys, written with \<open>AList.update\<close> (a store
  \<open>labels[k] = v\<close>) and read with \<open>map_of\<close>; \<open>len(labels) > 0\<close> is non-emptiness.
\<close>

type_synonym labels = "(string \<times> string) list"

text \<open>
  The three kinds of events, with the fields that \<open>buildEvent\<close> sets; the selectors are
  the methods of the interface \<open>Event\<close> that \<open>handleEvent\<close> calls.
\<close>

datatype 'f Event =
    CounterEvent (MetricName: string) (Value: 'f) (Labels: labels)
  | GaugeEvent (MetricName: string) (Value: 'f) (Relative: bool) (Labels: labels)
  | TimerEvent (MetricName: string) (Value: 'f) (Labels: labels)

text \<open>
  The exporter's own counters. A function that increments counters returns the list of
  its increments, in order; the debug log lines are not modelled.
\<close>

datatype stat =
    SamplesReceived
  | TagsReceived
  | TagErrors
  | SampleErrors string
  | EventStats string
  | EventsActions string
  | EventsUnmapped
  | ErrorEventStats string
  | ConflictingEventStats string
  | UdpPackets
  | LinesReceived

text \<open>
  The values of samples are \<open>float64\<close>. The parser and the exporter use six operations
  on them, all of the Go language or of \<open>strconv\<close>: reading a literal, an integer
  constant, the quotient, the two comparisons and the conversion \<open>int(x)\<close>. The model
  takes the first five as a parameter, a record over the type \<open>'f\<close> of the values, with
  the number that a value stands for (\<open>f_val\<close>); rounding is theirs. The conversion is
  defined from that number, as the language defines it: the fraction is cut off, and a
  value whose integer part no \<open>int\<close> holds (an \<open>int\<close> has 64 bits on the platforms of the
  \<open>Dockerfile\<close>), or that is no number, converts to an \<open>int\<close> that depends on the platform
  (\<open>f_int_other\<close>).
\<close>

record 'f float64_ops =
  f_parse :: "string \<Rightarrow> 'f \<times> bool"
    \<comment> \<open>\<open>strconv.ParseFloat(s, 64)\<close>: the value and whether \<open>err != nil\<close>\<close>
  f_lit :: "int \<Rightarrow> 'f"
    \<comment> \<open>an integer constant as a \<open>float64\<close>\<close>
  f_quo :: "'f \<Rightarrow> 'f \<Rightarrow> 'f"
    \<comment> \<open>\<open>x / y\<close>\<close>
  f_eq :: "'f \<Rightarrow> 'f \<Rightarrow> bool"
    \<comment> \<open>\<open>x == y\<close>\<close>
  f_less :: "'f \<Rightarrow> 'f \<Rightarrow> bool"
    \<comment> \<open>\<open>x < y\<close>\<close>
  f_val :: "'f \<Rightarrow> rat option"
    \<comment> \<open>the number that a finite value stands for; \<open>None\<close> for an infinity and for NaN\<close>
  f_int_other :: "'f \<Rightarrow> int"
    \<comment> \<open>what \<open>int(x)\<close> gives on the platform when no \<open>int\<close> holds the integer part of
        \<open>x\<close>; only its 64 low bits count\<close>

definition int64 :: "int \<Rightarrow> int" where
  \<comment> \<open>the \<open>int\<close> of 64 bits, in two's complement, with the low bits of \<open>n\<close>\<close>
  "int64 n = (n + 2 ^ 63) mod 2 ^ 64 - 2 ^ 63"

definition int_part :: "rat \<Rightarrow> int" where
  \<comment> \<open>the integer part of a number: the fraction is cut off, towards zero\<close>
  "int_part x = (if 0 \<le> x then \<lfloor>x\<rfloor> else \<lceil>x\<rceil>)"

definition f_int :: "'f float64_ops \<Rightarrow> 'f \<Rightarrow> int" where
  \<comment> \<open>the conversion \<open>int(x)\<close> of a \<open>float64\<close>\<close>
  "f_int ops x =
     (case f_val ops x of
        Some r \<Rightarrow>
          if - (2 ^ 63) \<le> int_part r \<and> int_part r < 2 ^ 63 then int_part r
          else int64 (f_int_other ops x)
      | None \<Rightarrow> int64 (f_int_other ops x))"

subsection \<open>Events and tags\<close>

definition buildEvent ::
  "string \<Rightarrow> string \<Rightarrow> 'f \<Rightarrow> bool \<Rightarrow> labels \<Rightarrow> string + 'f Event" where
  "buildEvent statType metric value relative labels =
     (if statType = ''c'' then Inr (CounterEvent metric value labels)
      else if statType = ''g'' then Inr (GaugeEvent metric value relative labels)
      else if statType = ''ms'' \<or> statType = ''h'' \<or> statType = ''d''
      then Inr (TimerEvent metric value labels)
      else if statType = ''s'' then Inl ''no support for StatsD sets''
      else Inl (''bad stat type '' @ statType))"

definition parseTag ::
  "string \<Rightarrow> string \<Rightarrow> int \<Rightarrow> labels \<Rightarrow> (labels \<times> stat list) option" where
  "parseTag component tag separator labels =
     (if length tag = 0 then Some (labels, [TagErrors])
      else
        case find (\<lambda>(i, c). c = separator) (range_string tag) of
          Some (i, c) \<Rightarrow> do {
            k \<leftarrow> slice_to tag (int i);
            v \<leftarrow> slice_from tag (int i + 1);
            if length k = 0 \<or> length v = 0 then Some (labels, [TagErrors])
            else do {
              key \<leftarrow> escapeMetricName k;
              Some (AList.update key v labels, [])
            }
          }
        | None \<Rightarrow> Some (labels, [TagErrors]))"

fun tags_loop ::
  "(string \<Rightarrow> string) \<Rightarrow> int \<Rightarrow> string \<Rightarrow> (nat \<times> int) list \<Rightarrow>
   nat \<times> labels \<times> stat list \<Rightarrow> (nat \<times> labels \<times> stat list) option" where
  \<comment> \<open>the loop over \<open>range component\<close> that \<open>parseNameTags\<close> and \<open>parseDogStatsDTags\<close>
      share; \<open>pre\<close> is applied to each tag and \<open>separator\<close> splits it\<close>
  "tags_loop pre separator component [] st = Some st"
| "tags_loop pre separator component ((i, c) # ics) (lastTagEndIndex, labels, tr) =
     (if c = rune_of CHR '','' then do {
        tag \<leftarrow> slice component (int lastTagEndIndex) (int i);
        (labels', tr') \<leftarrow> parseTag component (pre tag) separator labels;
        tags_loop pre separator component ics (i + 1, labels', tr @ tr')
      }
      else tags_loop pre separator component ics (lastTagEndIndex, labels, tr))"

definition parseTags ::
  "(string \<Rightarrow> string) \<Rightarrow> int \<Rightarrow> string \<Rightarrow> labels \<Rightarrow> (labels \<times> stat list) option" where
  "parseTags pre separator component labels = do {
     (lastTagEndIndex, labels', tr) \<leftarrow>
       tags_loop pre separator component (range_string component) (0, labels, []);
     if lastTagEndIndex < length component then do {
       tag \<leftarrow> slice_from component (int lastTagEndIndex);
       (labels'', tr') \<leftarrow> parseTag component (pre tag) separator labels';
       Some (labels'', tr @ tr')
     }
     else Some (labels', tr)
   }"

definition parseNameTags :: "string \<Rightarrow> labels \<Rightarrow> (labels \<times> stat list) option" where
  "parseNameTags component labels = parseTags (\<lambda>tag. tag) (rune_of CHR ''='') component labels"

fun trimLeftHash :: "string \<Rightarrow> string" where
  "trimLeftHash [] = []"
| "trimLeftHash (c # s) = (if c = CHR ''#'' then s else c # s)"

definition parseDogStatsDTags :: "string \<Rightarrow> labels \<Rightarrow> (labels \<times> stat list) option" where
  "parseDogStatsDTags component labels =
     parseTags trimLeftHash (rune_of CHR '':'') component labels"

definition parseNameAndTags ::
  "string \<Rightarrow> labels \<Rightarrow> (string \<times> labels \<times> stat list) option" where
  "parseNameAndTags name labels =
     (case find (\<lambda>(i, c). c = rune_of CHR ''#'' \<or> c = rune_of CHR '','') (range_string name) of
        Some (i, c) \<Rightarrow> do {
          rest \<leftarrow> slice_from name (int i + 1);
          (labels', tr) \<leftarrow> parseNameTags rest labels;
          metric \<leftarrow> slice_to name (int i);
          Some (metric, labels', tr)
        }
      | None \<Rightarrow> Some (name, labels, []))"

subsection \<open>Samples and lines\<close>

definition component_step ::
  "'f float64_ops \<Rightarrow> string \<Rightarrow> 'f \<times> int \<times> labels \<times> stat list \<Rightarrow> string \<Rightarrow>
   ('f \<times> int \<times> labels \<times> stat list) option" where
  \<comment> \<open>the body of the second loop over \<open>components[2:]\<close>; the state is \<open>value\<close>,
      \<open>multiplyEvents\<close>, the labels and the increments so far\<close>
  "component_step ops statType st component =
     (case st of (value, multiplyEvents, labels, tr) \<Rightarrow>
      case component of
        [] \<Rightarrow> None
      | c0 # rest \<Rightarrow>
          if c0 = CHR ''@'' then
            let (parsed, err) = f_parse ops rest;
                tr' = (if err then tr @ [SampleErrors ''invalid_sample_factor''] else tr);
                samplingFactor =
                  (if f_eq ops parsed (f_lit ops 0) then f_lit ops 1 else parsed)
            in
            if statType = ''g'' then Some (value, multiplyEvents, labels, tr')
            else if statType = ''c''
            then Some (f_quo ops value samplingFactor, multiplyEvents, labels, tr')
            else if statType = ''ms'' \<or> statType = ''h'' \<or> statType = ''d''
            then Some (value, f_int ops (f_quo ops (f_lit ops 1) samplingFactor), labels, tr')
            else Some (value, multiplyEvents, labels, tr')
          else if c0 = CHR ''#'' then do {
            (labels', tr') \<leftarrow> parseDogStatsDTags rest labels;
            Some (value, multiplyEvents, labels', tr @ tr')
          }
          else Some (value, multiplyEvents, labels,
                     tr @ [SampleErrors ''invalid_sample_factor'']))"

fun components_loop ::
  "'f float64_ops \<Rightarrow> string \<Rightarrow> string list \<Rightarrow> 'f \<times> int \<times> labels \<times> stat list \<Rightarrow>
   ('f \<times> int \<times> labels \<times> stat list) option" where
  "components_loop ops statType [] st = Some st"
| "components_loop ops statType (component # cs) st =
     (case component_step ops statType st component of
        None \<Rightarrow> None
      | Some st' \<Rightarrow> components_loop ops statType cs st')"

primrec build_loop ::
  "nat \<Rightarrow> string \<Rightarrow> string \<Rightarrow> 'f \<Rightarrow> bool \<Rightarrow> labels \<Rightarrow> 'f Event list \<times> stat list" where
  \<comment> \<open>the loop \<open>for i := 0; i < multiplyEvents; i++\<close>, for the number of its iterations\<close>
  "build_loop 0 statType metric value relative labels = ([], [])"
| "build_loop (Suc n) statType metric value relative labels =
     (let (events, tr) = build_loop n statType metric value relative labels in
      case buildEvent statType metric value relative labels of
        Inl err \<Rightarrow> (events, SampleErrors ''illegal_event'' # tr)
      | Inr event \<Rightarrow> (event # events, tr))"

definition sampleToEvents ::
  "'f float64_ops \<Rightarrow> string \<Rightarrow> labels \<Rightarrow> string \<Rightarrow>
   ('f Event list \<times> labels \<times> stat list) option" where
  \<comment> \<open>the body of the loop over the samples of a line: the events of the sample, the
      labels after it and its increments\<close>
  "sampleToEvents ops metric labels sample =
     (let components = Split sample CHR ''|'' in
      if length components < 2 \<or> length components > 4
      then Some ([], labels, [SamplesReceived, SampleErrors ''malformed_component''])
      else
        let valueStr = components ! 0;
            statType = components ! 1;
            relative = (Index valueStr ''+'' = 0 \<or> Index valueStr ''-'' = 0);
            (value, err) = f_parse ops valueStr
        in
        if err then Some ([], labels, [SamplesReceived, SampleErrors ''malformed_value''])
        else if length components \<ge> 3 \<and>
                list_ex (\<lambda>component. length component = 0) (drop 2 components)
        then Some ([], labels, [SamplesReceived, SampleErrors ''malformed_component''])
        else do {
          (value', multiplyEvents, labels', tr) \<leftarrow>
            (if length components \<ge> 3
             then components_loop ops statType (drop 2 components) (value, 1, labels, [])
             else Some (value, 1, labels, []));
          let tags = (if length labels' > 0 then [TagsReceived] else []);
          let (events, tr') =
            build_loop (nat multiplyEvents) statType metric value' relative labels';
          Some (events, labels', [SamplesReceived] @ tr @ tags @ tr')
        })"

fun samples_loop ::
  "'f float64_ops \<Rightarrow> string \<Rightarrow> string list \<Rightarrow> 'f Event list \<times> labels \<times> stat list \<Rightarrow>
   ('f Event list \<times> labels \<times> stat list) option" where
  "samples_loop ops metric [] st = Some st"
| "samples_loop ops metric (sample # rest) (events, labels, tr) =
     (case sampleToEvents ops metric labels sample of
        None \<Rightarrow> None
      | Some (events', labels', tr') \<Rightarrow>
          samples_loop ops metric rest (events @ events', labels', tr @ tr'))"

primrec with_labels :: "labels \<Rightarrow> 'f Event \<Rightarrow> 'f Event" where
  "with_labels l (CounterEvent n v l0) = CounterEvent n v l"
| "with_labels l (GaugeEvent n v r l0) = GaugeEvent n v r l"
| "with_labels l (TimerEvent n v l0) = TimerEvent n v l"

text \<open>
  \<open>lineToEvents\<close> returns the events of a line and its increments of the counters, or
  \<open>None\<close> if it panics. Every event holds a reference to the one map of labels of the line,
  so what an event of the result shows as its labels is the map as the line left it:
  the last step gives every event the final labels.
\<close>

definition lineToEvents ::
  "'f float64_ops \<Rightarrow> string \<Rightarrow> ('f Event list \<times> stat list) option" where
  "lineToEvents ops line =
     (if line = [] then Some ([], [])
      else
        let elements = SplitN2 line CHR '':'' in
        if length elements < 2 \<or> length (elements ! 0) = 0 \<or> \<not> ValidString line
        then Some ([], [SampleErrors ''malformed_line''])
        else do {
          (metric, labels, tr) \<leftarrow> parseNameAndTags (elements ! 0) [];
          if Contains (elements ! 1) ''|#'' \<and> length labels > 0
          then Some ([], tr @ [SampleErrors ''mixed_tagging_styles''])
          else do {
            let samples =
              (if Contains (elements ! 1) ''|#'' then drop 1 elements
               else Split (elements ! 1) CHR '':'');
            (events, labels', tr') \<leftarrow> samples_loop ops metric samples ([], labels, tr);
            Some (map (with_labels labels') events, tr')
          }
        })"

subsection \<open>The UDP listener\<close>

fun lines_loop ::
  "'f float64_ops \<Rightarrow> string list \<Rightarrow> ('f Event list list \<times> stat list) option" where
  \<comment> \<open>the loop of \<open>handlePacket\<close>: the batches handed to \<open>eventHandler.queue\<close>, in order\<close>
  "lines_loop ops [] = Some ([], [])"
| "lines_loop ops (line # rest) = do {
     (events, tr) \<leftarrow> lineToEvents ops line;
     (queued, tr') \<leftarrow> lines_loop ops rest;
     Some (events # queued, LinesReceived # tr @ tr')
   }"

definition handlePacket ::
  "'f float64_ops \<Rightarrow> string \<Rightarrow> ('f Event list list \<times> stat list) option" where
  "handlePacket ops packet = do {
     (queued, tr) \<leftarrow> lines_loop ops (Split packet (CHR 0x0A));
     Some (queued, UdpPackets # tr)
   }"

section \<open>The exporter\<close>

text \<open>
  \<open>handleEvent\<close> calls the mapper and the registry, whose code is in other packages and
  files of the repository. The model takes both as parameters: the mapper as its lookup
  function and its defaults, the registry as a state of any type \<open>'r\<close> with the four
  lookups (each returns an error or a metric \<open>'h\<close>, and the registry after the lookup) and
  the five updates of a metric that \<open>handleEvent\<close> uses.
\<close>

text \<open>
  Modelled from the spec: the timer kinds of the mapper package (summary, histogram,
  default). \<open>TimerType\<close> is a string type in Go, so a mapping can hold a value that is
  none of the three: \<open>TimerTypeOther\<close>.
\<close>

datatype TimerType =
    TimerTypeDefault
  | TimerTypeHistogram
  | TimerTypeSummary
  | TimerTypeOther string

text \<open>Modelled from the spec: the type of an event as the mapper is asked for it.\<close>

datatype MetricType = MetricTypeCounter | MetricTypeGauge | MetricTypeTimer

text \<open>
  Modelled from the spec: the mapping of a lookup, with the attributes that
  \<open>handleEvent\<close> reads (pattern, target name, action, help text, timer kind, time to live).
\<close>

record MetricMapping =
  Match :: string
  Name :: string
  Action :: string
  HelpText :: string
  TimerType :: TimerType
  Ttl :: int

definition ActionTypeDrop :: string where
  \<comment> \<open>Modelled from the spec: the action \<open>drop\<close> of the mapper package\<close>
  "ActionTypeDrop = ''drop''"

definition zero_mapping :: MetricMapping where
  \<comment> \<open>\<open>&mapper.MetricMapping{}\<close>\<close>
  "zero_mapping =
     \<lparr>Match = [], Name = [], Action = [], HelpText = [], TimerType = TimerTypeDefault, Ttl = 0\<rparr>"

text \<open>
  Modelled from the spec: the mapper, as its lookup \<open>(name, type) \<rightarrow> (mapping,
  extracted labels, matched?)\<close> and its defaults.
\<close>

record MetricMapper =
  GetMapping :: "string \<Rightarrow> MetricType \<Rightarrow> MetricMapping option \<times> labels \<times> bool"
  Defaults_Ttl :: int
  Defaults_TimerType :: TimerType

text \<open>
  Modelled from the spec: the operations of the registry, \<open>getCounter(name, labels,
  help, mapping) \<rightarrow> counter | conflict\<close> and its three siblings, and the updates of the
  metrics they return.
\<close>

record ('f, 'r, 'h) registry_ops =
  getCounter :: "string \<Rightarrow> labels \<Rightarrow> string \<Rightarrow> MetricMapping \<Rightarrow> 'r \<Rightarrow> (string + 'h) \<times> 'r"
  getGauge :: "string \<Rightarrow> labels \<Rightarrow> string \<Rightarrow> MetricMapping \<Rightarrow> 'r \<Rightarrow> (string + 'h) \<times> 'r"
  getHistogram :: "string \<Rightarrow> labels \<Rightarrow> string \<Rightarrow> MetricMapping \<Rightarrow> 'r \<Rightarrow> (string + 'h) \<times> 'r"
  getSummary :: "string \<Rightarrow> labels \<Rightarrow> string \<Rightarrow> MetricMapping \<Rightarrow> 'r \<Rightarrow> (string + 'h) \<times> 'r"
  counter_Add :: "'h \<Rightarrow> 'f \<Rightarrow> 'r \<Rightarrow> 'r"
  gauge_Add :: "'h \<Rightarrow> 'f \<Rightarrow> 'r \<Rightarrow> 'r"
  gauge_Set :: "'h \<Rightarrow> 'f \<Rightarrow> 'r \<Rightarrow> 'r"
  histogram_Observe :: "'h \<Rightarrow> 'f \<Rightarrow> 'r \<Rightarrow> 'r"
  summary_Observe :: "'h \<Rightarrow> 'f \<Rightarrow> 'r \<Rightarrow> 'r"

datatype fatal = Panic | OsExit int

definition defaultHelp :: string where
  "defaultHelp = ''Metric autogenerated by statsd_exporter.''"

primrec EventType :: "'f Event \<Rightarrow> MetricType" where
  \<comment> \<open>\<open>event.MetricType()\<close>\<close>
  "EventType (CounterEvent n v l) = MetricTypeCounter"
| "EventType (GaugeEvent n v r l) = MetricTypeGauge"
| "EventType (TimerEvent n v l) = MetricTypeTimer"

definition lookup_mapping ::
  "MetricMapper \<Rightarrow> 'f Event \<Rightarrow> MetricMapping \<times> labels \<times> bool" where
  \<comment> \<open>the first lines of \<open>handleEvent\<close>: the mapping of the event, or the empty mapping
      with the default time to live when the mapper returns none\<close>
  "lookup_mapping mapper event =
     (case GetMapping mapper (MetricName event) (EventType event) of
        (m, labels, present) \<Rightarrow>
          (case m of
             None \<Rightarrow>
               (if Defaults_Ttl mapper \<noteq> 0
                then zero_mapping\<lparr>Ttl := Defaults_Ttl mapper\<rparr> else zero_mapping,
                labels, present)
           | Some mapping \<Rightarrow> (mapping, labels, present)))"

definition merge_labels :: "labels \<Rightarrow> labels \<Rightarrow> labels" where
  \<comment> \<open>\<open>for label, value := range labels { prometheusLabels[label] = value }\<close>\<close>
  "merge_labels prometheusLabels labels =
     foldl (\<lambda>acc (label, value). AList.update label value acc) prometheusLabels labels"

definition dispatch ::
  "'f float64_ops \<Rightarrow> MetricMapper \<Rightarrow> ('f, 'r, 'h) registry_ops \<Rightarrow> 'f Event \<Rightarrow>
   MetricMapping \<Rightarrow> string \<Rightarrow> labels \<Rightarrow> string \<Rightarrow> 'r \<Rightarrow> fatal + 'r \<times> stat list" where
  \<comment> \<open>the type switch at the end of \<open>handleEvent\<close>\<close>
  "dispatch fo mapper reg event mapping metricName prometheusLabels help r =
     (case event of
        CounterEvent n v l \<Rightarrow>
          if f_less fo v (f_lit fo 0)
          then Inr (r, [ErrorEventStats ''illegal_negative_counter''])
          else
            (case getCounter reg metricName prometheusLabels help mapping r of
               (Inr counter, r') \<Rightarrow> Inr (counter_Add reg counter v r', [EventStats ''counter''])
             | (Inl err, r') \<Rightarrow> Inr (r', [ConflictingEventStats ''counter'']))
      | GaugeEvent n v rel l \<Rightarrow>
          (case getGauge reg metricName prometheusLabels help mapping r of
             (Inr gauge, r') \<Rightarrow>
               Inr (if rel then gauge_Add reg gauge v r' else gauge_Set reg gauge v r',
                    [EventStats ''gauge''])
           | (Inl err, r') \<Rightarrow> Inr (r', [ConflictingEventStats ''gauge'']))
      | TimerEvent n v l \<Rightarrow>
          let t = TimerType mapping;
              t = (if t = TimerTypeDefault then Defaults_TimerType mapper else t)
          in
          (case t of
             TimerTypeHistogram \<Rightarrow>
               (case getHistogram reg metricName prometheusLabels help mapping r of
                  (Inr histogram, r') \<Rightarrow>
                    Inr (histogram_Observe reg histogram (f_quo fo v (f_lit fo 1000)) r',
                         [EventStats ''timer''])
                | (Inl err, r') \<Rightarrow> Inr (r', [ConflictingEventStats ''timer'']))
           | TimerTypeOther other \<Rightarrow> Inl (OsExit 1)
           | _ \<Rightarrow>
               (case getSummary reg metricName prometheusLabels help mapping r of
                  (Inr summary, r') \<Rightarrow>
                    Inr (summary_Observe reg summary (f_quo fo v (f_lit fo 1000)) r',
                         [EventStats ''timer''])
                | (Inl err, r') \<Rightarrow> Inr (r', [ConflictingEventStats ''timer'']))))"

definition handleEvent ::
  "'f float64_ops \<Rightarrow> MetricMapper \<Rightarrow> ('f, 'r, 'h) registry_ops \<Rightarrow> 'f Event \<Rightarrow> 'r \<Rightarrow>
   fatal + 'r \<times> stat list" where
  \<comment> \<open>the registry after the event and the increments of the counters, or the end of
      the process\<close>
  "handleEvent fo mapper reg event r =
     (case lookup_mapping mapper event of (mapping, labels, present) \<Rightarrow>
      if Action mapping = ActionTypeDrop then Inr (r, [EventsActions ''drop''])
      else
        let help = (if HelpText mapping \<noteq> [] then HelpText mapping else defaultHelp) in
        if present then
          if Name mapping = [] then Inr (r, [ErrorEventStats ''empty_metric_name''])
          else
            (case escapeMetricName (Name mapping) of
               None \<Rightarrow> Inl Panic
             | Some metricName \<Rightarrow>
                 (case dispatch fo mapper reg event mapping metricName
                         (merge_labels (Labels event) labels) help r of
                    Inl f \<Rightarrow> Inl f
                  | Inr (r', tr) \<Rightarrow> Inr (r', EventsActions (Action mapping) # tr)))
        else
          (case escapeMetricName (MetricName event) of
             None \<Rightarrow> Inl Panic
           | Some metricName \<Rightarrow>
               (case dispatch fo mapper reg event mapping metricName (Labels event) help r of
                  Inl f \<Rightarrow> Inl f
                | Inr (r', tr) \<Rightarrow> Inr (r', EventsUnmapped # tr))))"

definition timer_kind_spec :: "TimerType \<Rightarrow> TimerType \<Rightarrow> TimerType" where
  \<comment> \<open>the effective kind of a timer as the specification words it: the timer type of
      the mapping if it is set, else the one of the mapper's defaults, else summary\<close>
  "timer_kind_spec mapping_type defaults_type =
     (if mapping_type \<noteq> TimerTypeDefault then mapping_type
      else if defaults_type \<noteq> TimerTypeDefault then defaults_type
      else TimerTypeSummary)"

subsection \<open>An instance of the operations on values, for running examples\<close>

text \<open>
  \<open>exact_ops\<close> computes with rational numbers: every value is a number and no operation
  rounds. Where no \<open>int\<close> holds the integer part of a value, its conversion gives the least
  \<open>int\<close>, as the conversion instruction of amd64 does (the platform of the \<open>Dockerfile\<close>).
  It reads the decimal literals \<open>[+-]digits[.digits]\<close>, with at least one digit before or
  after the point, and takes every other string for a syntax error, for which
  \<open>strconv.ParseFloat\<close> returns 0 and an error. Go reads more forms than these (exponents,
  hexadecimal literals, underscores between digits, infinities, NaN), and \<open>float64\<close> rounds
  and has a largest value; the examples below use only strings on which both agree.
\<close>

definition digits_value :: "string \<Rightarrow> nat option" where
  "digits_value s =
     (if s \<noteq> [] \<and> list_all digit_char s
      then Some (foldl (\<lambda>n c. 10 * n + (byte c - byte CHR ''0'')) 0 s)
      else None)"

definition digits_opt :: "string \<Rightarrow> nat option" where
  \<comment> \<open>the digits on one side of the point, which may be none\<close>
  "digits_opt s = (if s = [] then Some 0 else digits_value s)"

definition unsigned_value :: "string \<Rightarrow> rat option" where
  "unsigned_value s =
     (case SplitN2 s CHR ''.'' of
        [ip] \<Rightarrow> map_option of_nat (digits_value ip)
      | [ip, fp] \<Rightarrow>
          if ip = [] \<and> fp = [] then None
          else
            (case (digits_opt ip, digits_opt fp) of
               (Some a, Some b) \<Rightarrow> Some (of_nat a + of_nat b / 10 ^ length fp)
             | _ \<Rightarrow> None)
      | _ \<Rightarrow> None)"

definition exact_parse :: "string \<Rightarrow> rat \<times> bool" where
  "exact_parse s =
     (case s of
        [] \<Rightarrow> (0, True)
      | c # r \<Rightarrow>
          (case (if c = CHR ''-'' then map_option uminus (unsigned_value r)
                 else if c = CHR ''+'' then unsigned_value r
                 else unsigned_value s) of
             Some x \<Rightarrow> (x, False)
           | None \<Rightarrow> (0, True)))"

definition exact_ops :: "rat float64_ops" where
  "exact_ops =
     \<lparr>f_parse = exact_parse, f_lit = of_int, f_quo = (\<lambda>x y. x / y), f_eq = (\<lambda>x y. x = y),
      f_less = (\<lambda>x y. x < y), f_val = Some, f_int_other = (\<lambda>x. - (2 ^ 63))\<rparr>"

subsection \<open>A mapper and a registry for running examples\<close>

text \<open>
  \<open>log_registry\<close> is a registry that records the calls it gets, in order; every lookup
  succeeds and returns the name as the metric. \<open>no_mapper\<close> matches no name;
  \<open>drop_mapper\<close> maps every name to one mapping of action \<open>drop\<close>.
\<close>

datatype 'f reg_call =
    GetCounter string labels
  | GetGauge string labels
  | GetHistogram string labels
  | GetSummary string labels
  | CounterAdd string 'f
  | GaugeAdd string 'f
  | GaugeSet string 'f
  | HistogramObserve string 'f
  | SummaryObserve string 'f

definition log_registry :: "('f, 'f reg_call list, string) registry_ops" where
  "log_registry =
     \<lparr>getCounter = (\<lambda>name labels help mapping r. (Inr name, r @ [GetCounter name labels])),
      getGauge = (\<lambda>name labels help mapping r. (Inr name, r @ [GetGauge name labels])),
      getHistogram = (\<lambda>name labels help mapping r. (Inr name, r @ [GetHistogram name labels])),
      getSummary = (\<lambda>name labels help mapping r. (Inr name, r @ [GetSummary name labels])),
      counter_Add = (\<lambda>h v r. r @ [CounterAdd h v]),
      gauge_Add = (\<lambda>h v r. r @ [GaugeAdd h v]),
      gauge_Set = (\<lambda>h v r. r @ [GaugeSet h v]),
      histogram_Observe = (\<lambda>h v r. r @ [HistogramObserve h v]),
      summary_Observe = (\<lambda>h v r. r @ [SummaryObserve h v])\<rparr>"

definition no_mapper :: MetricMapper where
  "no_mapper =
     \<lparr>GetMapping = (\<lambda>name t. (None, [], False)), Defaults_Ttl = 0,
      Defaults_TimerType = TimerTypeDefault\<rparr>"


definition histogram_mapper :: MetricMapper where
  "histogram_mapper =
     \<lparr>GetMapping =
        (\<lambda>name t. (Some (zero_mapping\<lparr>Match := ''*.latency'', Name := ''latency'', Action := ''map'',
                            TimerType := TimerTypeDefault\<rparr>),
                    [(''service'', ''api'')], True)),
      Defaults_Ttl = 0, Defaults_TimerType = TimerTypeHistogram\<rparr>"

section \<open>Facts about the parser\<close>

subsection \<open>Valid UTF-8 is kept by cutting at ASCII bytes\<close>

lemma ok_rune_shift: "list_all ok_rune (runes_from i t) = list_all ok_rune (runes_from j t)"
proof (induction i t arbitrary: j rule: runes_from.induct)
  case (1 i t)
  show ?case
  proof (cases "t = []")
    case True
    then show ?thesis by simp
  next
    case False
    show ?thesis
      using "1.IH" [OF False, of "j + snd (DecodeRuneInString t)"]
      by (simp add: runes_from_Cons [OF False] ok_rune_def split_def)
  qed
qed

lemma ValidString_Nil [simp]: "ValidString []"
  by (simp add: ValidString_def runes_def)

lemma ValidString_step:
  "t \<noteq> [] \<Longrightarrow>
   ValidString t \<longleftrightarrow>
     DecodeRuneInString t \<noteq> (RuneError, 1) \<and> ValidString (drop (snd (DecodeRuneInString t)) t)"
  using ok_rune_shift [of "snd (DecodeRuneInString t)" "drop (snd (DecodeRuneInString t)) t" 0]
  by (cases "DecodeRuneInString t")
     (simp add: ValidString_def runes_def runes_from_Cons ok_rune_def)

lemma Decode_tail_high:
  "t \<noteq> [] \<Longrightarrow> \<forall>x \<in> set (tl (take (snd (DecodeRuneInString t)) t)). 0x80 \<le> byte x"
  by (cases rule: Decode_cases) auto

lemma Decode_prefix:
  "t \<noteq> [] \<Longrightarrow> DecodeRuneInString t \<noteq> (RuneError, 1) \<Longrightarrow>
   DecodeRuneInString (take (snd (DecodeRuneInString t)) t @ u) = DecodeRuneInString t"
  by (cases rule: Decode_cases) auto

lemma prefix_before_ascii:
  assumes eq: "a @ c # b = p @ t" and hi: "\<forall>x \<in> set (tl p). 0x80 \<le> byte x"
    and c: "byte c < 0x80" and a: "a \<noteq> []"
  shows "\<exists>a'. a = p @ a'"
proof (cases "length p \<le> length a")
  case True
  then have "take (length p) (a @ c # b) = take (length p) a" by simp
  moreover have "take (length p) (p @ t) = p" by simp
  ultimately have "p = take (length p) a" using eq by simp
  then have "a = p @ drop (length p) a" by (metis append_take_drop_id)
  then show ?thesis ..
next
  case False
  then have lt: "length a < length p" by simp
  have "(a @ c # b) ! length a = c" by simp
  then have "p ! length a = c" using eq lt by (simp add: nth_append)
  moreover have la: "0 < length a" using a by simp
  moreover obtain x q where p: "p = x # q" using lt by (cases p) auto
  ultimately have "q ! (length a - 1) = c" by (simp add: nth_Cons')
  moreover have "length a - 1 < length q" using lt a p by (cases a) auto
  ultimately have "c \<in> set (tl p)" using p nth_mem by fastforce
  then show ?thesis using hi c by auto
qed

lemma ValidString_split:
  "ValidString (a @ c # b) \<Longrightarrow> byte c < 0x80 \<Longrightarrow> ValidString a \<and> ValidString b"
proof (induction "length a" arbitrary: a rule: less_induct)
  case less
  let ?s = "a @ c # b"
  let ?w = "snd (DecodeRuneInString ?s)"
  have ne: "?s \<noteq> []" by simp
  from less.prems(1) ne have ok: "DecodeRuneInString ?s \<noteq> (RuneError, 1)"
    and rest: "ValidString (drop ?w ?s)"
    using ValidString_step [OF ne] by simp_all
  show ?case
  proof (cases "a = []")
    case True
    have "DecodeRuneInString (c # b) = (int (byte c), 1)"
      using less.prems(2) by (simp add: Decode_sz1 seq_size_def)
    then show ?thesis using True rest by simp
  next
    case False
    have "?s = take ?w ?s @ drop ?w ?s" by (rule append_take_drop_id [symmetric])
    from prefix_before_ascii [OF this Decode_tail_high [OF ne] less.prems(2) False]
    obtain a' where a': "a = take ?w ?s @ a'" ..
    have wl: "length (take ?w ?s) = ?w" using Decode_width_le [OF ne] by simp
    have wpos: "1 \<le> ?w" using DecodeRune_width_pos [OF ne] .
    have la: "length a = ?w + length a'" using a' wl by (metis length_append)
    have "?s = take ?w ?s @ (a' @ c # b)" using a' by (metis append.assoc)
    then have dr: "drop ?w ?s = a' @ c # b" using wl by (metis append_eq_conv_conj)
    have "length a' < length a" using la wpos by simp
    from less.hyps [OF this] rest dr less.prems(2)
    have va': "ValidString a'" and vb: "ValidString b" by simp_all
    have da: "DecodeRuneInString a = DecodeRuneInString ?s"
      using Decode_prefix [OF ne ok, of a'] a' by simp
    have "drop ?w a = a'" using a' wl by (metis append_eq_conv_conj)
    then have "ValidString a"
      using ValidString_step [OF False] da ok va' by simp
    with vb show ?thesis by simp
  qed
qed

lemma ValidString_sub:
  assumes v: "ValidString s" and lh: "lo \<le> hi" "hi \<le> length s"
    and l: "lo = 0 \<or> byte (s ! (lo - 1)) < 0x80"
    and h: "hi = length s \<or> byte (s ! hi) < 0x80"
  shows "ValidString (take (hi - lo) (drop lo s))"
proof -
  have v1: "ValidString (drop lo s)"
  proof (cases "lo = 0")
    case True
    then show ?thesis using v by simp
  next
    case False
    then have b: "byte (s ! (lo - 1)) < 0x80" and lt: "lo - 1 < length s" using l lh by auto
    have "s = take (lo - 1) s @ s ! (lo - 1) # drop lo s"
      using id_take_nth_drop [OF lt] False by simp
    then show ?thesis using ValidString_split [of "take (lo - 1) s" "s ! (lo - 1)" "drop lo s"] v b
      by simp
  qed
  show ?thesis
  proof (cases "hi = length s")
    case True
    then show ?thesis using v1 by simp
  next
    case False
    then have b: "byte (s ! hi) < 0x80" and lt: "hi - lo < length (drop lo s)" using h lh by auto
    have "drop lo s ! (hi - lo) = s ! hi" using lh by simp
    then have "drop lo s = take (hi - lo) (drop lo s) @ s ! hi # drop (Suc (hi - lo)) (drop lo s)"
      using id_take_nth_drop [OF lt] by simp
    then show ?thesis
      using ValidString_split [of "take (hi - lo) (drop lo s)" "s ! hi"
          "drop (Suc (hi - lo)) (drop lo s)"] v1 b
      by simp
  qed
qed

subsection \<open>Tag parsing does not panic\<close>

lemma runes_from_mem:
  "(j, c, w) \<in> set (runes_from i t) \<Longrightarrow>
   i \<le> j \<and> j < i + length t \<and> DecodeRuneInString (drop (j - i) t) = (c, w)"
proof (induction i t rule: runes_from.induct)
  case (1 i t)
  show ?case
  proof (cases "t = []")
    case True
    then show ?thesis using 1(2) by simp
  next
    case False
    let ?w = "snd (DecodeRuneInString t)"
    have wle: "?w \<le> length t" using Decode_width_le [OF False] .
    from 1(2) have "(j, c, w) = (i, DecodeRuneInString t) \<or>
        (j, c, w) \<in> set (runes_from (i + ?w) (drop ?w t))"
      by (simp add: runes_from_Cons [OF False])
    then show ?thesis
    proof
      assume "(j, c, w) = (i, DecodeRuneInString t)"
      then show ?thesis using False by auto
    next
      assume "(j, c, w) \<in> set (runes_from (i + ?w) (drop ?w t))"
      from "1.IH" [OF False this] wle
      have "i + ?w \<le> j" "j < i + length t"
        "DecodeRuneInString (drop (j - (i + ?w)) (drop ?w t)) = (c, w)" by auto
      moreover from this have "drop (j - (i + ?w)) (drop ?w t) = drop (j - i) t"
        by (simp add: add.commute)
      ultimately show ?thesis by simp
    qed
  qed
qed

lemma find_range_proj:
  "find P (range_proj xs) = Some (j, c) \<Longrightarrow> P (j, c) \<and> (\<exists>w. (j, c, w) \<in> set xs)"
  by (induction xs) (auto split: if_splits)

lemma Decode_ascii_rune:
  assumes "u \<noteq> []" "DecodeRuneInString u = (c, w)" "c < 0x80"
  shows "w = 1 \<and> c = int (byte (u ! 0)) \<and> byte (u ! 0) < 0x80"
  using assms(1)
proof (cases rule: Decode_cases)
  case (ascii c0 t)
  then show ?thesis using assms by simp
next
  case (error c0 t)
  then show ?thesis using assms by (simp add: RuneError_def)
next
  case (two c0 c1 t)
  then show ?thesis using assms by simp
next
  case (three c0 c1 c2 t)
  then show ?thesis using assms by simp
next
  case (four c0 c1 c2 c3 t)
  then show ?thesis using assms by simp
qed

lemma range_find_ascii:
  assumes f: "find P (range_string t) = Some (j, c)" and a: "\<And>j c. P (j, c) \<Longrightarrow> c < 0x80"
  shows "P (j, c) \<and> j < length t \<and> c = int (byte (t ! j)) \<and> byte (t ! j) < 0x80"
proof -
  from find_range_proj [of P "runes t" j c] f
  obtain w where p: "P (j, c)" and m: "(j, c, w) \<in> set (runes_from 0 t)"
    by (auto simp add: range_string_def runes_def)
  have c: "c < 0x80" using p by (rule a)
  from runes_from_mem [OF m] have j: "j < length t" and d: "DecodeRuneInString (drop j t) = (c, w)"
    by simp_all
  have "drop j t \<noteq> []" using j by simp
  from Decode_ascii_rune [OF this d c] j p show ?thesis by simp
qed

lemma parseTag_total:
  assumes v: "ValidString tag" and s: "separator < 0x80"
  shows "\<exists>r. parseTag component tag separator labels = Some r"
proof (cases "find (\<lambda>(i, c). c = separator) (range_string tag)")
  case None
  then show ?thesis by (simp add: parseTag_def)
next
  case (Some ic)
  obtain i c where ic: "ic = (i, c)" by (cases ic)
  have "find (\<lambda>(i, c). c = separator) (range_string tag) = Some (i, c)"
    using Some ic by simp
  from range_find_ascii [OF this] s
  have i: "i < length tag" and b: "byte (tag ! i) < 0x80" by auto
  have k: "slice_to tag (int i) = Some (take i tag)"
    using i by (simp add: slice_to_def slice_def)
  have vl: "slice_from tag (int i + 1) = Some (drop (Suc i) tag)"
    using i by (simp add: slice_from_def slice_def nat_add_distrib)
  have "ValidString (take (i - 0) (drop 0 tag))"
    using i b by (intro ValidString_sub [OF v]) simp_all
  then have "ValidString (take i tag)" by simp
  then have "escapeMetricName (take i tag) = Some (escape_spec (take i tag))"
    by (rule escapeMetricName_valid)
  then show ?thesis using Some ic k vl by (simp add: parseTag_def)
qed

lemma slice_nat:
  "lo \<le> hi \<Longrightarrow> hi \<le> length s \<Longrightarrow>
   slice s (int lo) (int hi) = Some (take (hi - lo) (drop lo s))"
  by (simp add: slice_def nat_diff_distrib)

lemma slice_from_nat:
  "lo \<le> length s \<Longrightarrow> slice_from s (int lo) = Some (drop lo s)"
  by (simp add: slice_from_def slice_nat)

lemma slice_to_nat:
  "hi \<le> length s \<Longrightarrow> slice_to s (int hi) = Some (take hi s)"
  using slice_nat [of 0 hi s] by (simp add: slice_to_def)

lemma tags_loop_total:
  assumes "ValidString component" "\<And>u. ValidString u \<Longrightarrow> ValidString (pre u)"
    "separator < 0x80" "t = drop j component" "lst \<le> j" "j \<le> length component"
    "lst = 0 \<or> byte (component ! (lst - 1)) < 0x80"
  shows "\<exists>lst' labels' tr'.
           tags_loop pre separator component (range_proj (runes_from j t)) (lst, labels, tr) =
             Some (lst', labels', tr') \<and>
           lst' \<le> length component \<and> (lst' = 0 \<or> byte (component ! (lst' - 1)) < 0x80)"
  using assms
proof (induction j t arbitrary: lst labels tr rule: runes_from.induct)
  case (1 j t)
  show ?case
  proof (cases "t = []")
    case True
    then show ?thesis using 1(6,7,8) by simp
  next
    case False
    let ?c = "fst (DecodeRuneInString t)"
    let ?w = "snd (DecodeRuneInString t)"
    have j: "j < length component" using False 1(5) by simp
    have wle: "j + ?w \<le> length component" using Decode_width_le [OF False] 1(5) j by simp
    have dr: "drop ?w t = drop (j + ?w) component" using 1(5) by (simp add: add.commute)
    have rs: "runes_from j t = (j, ?c, ?w) # runes_from (j + ?w) (drop ?w t)"
      using runes_from_Cons [OF False, of j] by simp
    show ?thesis
    proof (cases "?c = rune_of CHR '',''")
      case True
      then have "?c < 0x80" by (simp add: rune_of_def)
      from Decode_ascii_rune [OF False _ this, of ?w]
      have w1: "?w = 1" and b: "byte (component ! j) < 0x80" using 1(5) j by simp_all
      have sl: "slice component (int lst) (int j) = Some (take (j - lst) (drop lst component))"
        using 1(6) j by (simp add: slice_nat)
      have "ValidString (take (j - lst) (drop lst component))"
        using 1(6,8) j b by (intro ValidString_sub [OF 1(2)]) simp_all
      then have "ValidString (pre (take (j - lst) (drop lst component)))" by (rule 1(3))
      from parseTag_total [OF this 1(4), of component labels]
      obtain labels1 tr1 where
        pt: "parseTag component (pre (take (j - lst) (drop lst component))) separator labels =
               Some (labels1, tr1)" by auto
      from "1.IH" [OF False 1(2) 1(3) 1(4) dr _ wle, of "j + 1" labels1 "tr @ tr1"] w1 b
      obtain lst' labels' tr' where
        "tags_loop pre separator component (range_proj (runes_from (j + ?w) (drop ?w t)))
           (j + 1, labels1, tr @ tr1) = Some (lst', labels', tr')"
        "lst' \<le> length component" "lst' = 0 \<or> byte (component ! (lst' - 1)) < 0x80"
        by auto
      then show ?thesis
        apply (subst rs)
        using True sl pt
        apply (simp add: split_def)
        done
    next
      case ne: False
      from "1.IH" [OF False 1(2) 1(3) 1(4) dr _ wle 1(8), of labels tr] 1(6)
      obtain lst' labels' tr' where
        "tags_loop pre separator component (range_proj (runes_from (j + ?w) (drop ?w t)))
           (lst, labels, tr) = Some (lst', labels', tr')"
        "lst' \<le> length component" "lst' = 0 \<or> byte (component ! (lst' - 1)) < 0x80"
        by auto
      then show ?thesis
        apply (subst rs)
        using ne
        apply (simp add: split_def)
        done
    qed
  qed
qed

lemma parseTags_total:
  assumes v: "ValidString component" and p: "\<And>u. ValidString u \<Longrightarrow> ValidString (pre u)"
    and s: "separator < 0x80"
  shows "\<exists>r. parseTags pre separator component labels = Some r"
proof -
  have "\<exists>lst' labels' tr'.
           tags_loop pre separator component (range_proj (runes_from 0 component))
             (0, labels, []) = Some (lst', labels', tr') \<and>
           lst' \<le> length component \<and> (lst' = 0 \<or> byte (component ! (lst' - 1)) < 0x80)"
    by (rule tags_loop_total [where j = 0]) (simp_all add: v p s)
  then obtain lst labels' tr where
    l: "tags_loop pre separator component (range_string component) (0, labels, []) =
          Some (lst, labels', tr)"
    and le: "lst \<le> length component"
    and b: "lst = 0 \<or> byte (component ! (lst - 1)) < 0x80"
    by (auto simp add: range_string_def runes_def)
  show ?thesis
  proof (cases "lst < length component")
    case False
    then show ?thesis using l by (simp add: parseTags_def)
  next
    case True
    have "ValidString (take (length component - lst) (drop lst component))"
      using le b by (intro ValidString_sub [OF v]) simp_all
    then have "ValidString (pre (drop lst component))" using p by simp
    from parseTag_total [OF this s, of component labels']
    show ?thesis using True l le by (auto simp add: parseTags_def slice_from_nat)
  qed
qed

lemma ValidString_trimLeftHash: "ValidString u \<Longrightarrow> ValidString (trimLeftHash u)"
proof (cases u)
  case Nil
  then show ?thesis by simp
next
  case (Cons c r)
  assume v: "ValidString u"
  show ?thesis
  proof (cases "c = CHR ''#''")
    case True
    then have "ValidString ([] @ c # r)" "byte c < 0x80" using v Cons by simp_all
    then have "ValidString r" by (blast dest: ValidString_split)
    then show ?thesis using Cons True by simp
  next
    case False
    then show ?thesis using v Cons by simp
  qed
qed

lemma parseNameTags_total:
  "ValidString component \<Longrightarrow> \<exists>r. parseNameTags component labels = Some r"
  unfolding parseNameTags_def by (rule parseTags_total) (simp_all add: rune_of_def)

lemma parseDogStatsDTags_total:
  "ValidString component \<Longrightarrow> \<exists>r. parseDogStatsDTags component labels = Some r"
  unfolding parseDogStatsDTags_def
  by (rule parseTags_total) (simp_all add: rune_of_def ValidString_trimLeftHash)

lemma parseNameAndTags_total:
  assumes v: "ValidString name"
  shows "\<exists>r. parseNameAndTags name labels = Some r"
proof (cases "find (\<lambda>(i, c). c = rune_of CHR ''#'' \<or> c = rune_of CHR '','') (range_string name)")
  case None
  then show ?thesis by (simp add: parseNameAndTags_def)
next
  case (Some ic)
  obtain i c where ic: "ic = (i, c)" by (cases ic)
  have f: "find (\<lambda>(i, c). c = rune_of CHR ''#'' \<or> c = rune_of CHR '','') (range_string name) =
          Some (i, c)" using Some ic by simp
  have "\<And>j c. (case (j, c) of (i :: nat, c) \<Rightarrow> c = rune_of CHR ''#'' \<or> c = rune_of CHR '','')
          \<Longrightarrow> c < 0x80"
    by (auto simp add: rune_of_def)
  from range_find_ascii [OF f this]
  have i: "i < length name" and b: "byte (name ! i) < 0x80" by simp_all
  have "ValidString (take (length name - Suc i) (drop (Suc i) name))"
    using i b by (intro ValidString_sub [OF v]) simp_all
  then have "ValidString (drop (Suc i) name)" by simp
  from parseNameTags_total [OF this, of labels]
  show ?thesis
    using Some ic i slice_from_nat [of "Suc i" name] slice_to_nat [of i name]
    by (auto simp add: parseNameAndTags_def add.commute)
qed

subsection \<open>The parser does not panic\<close>

lemma Split_unfold:
  "Split s sep =
     (if sep \<in> set s
      then takeWhile (\<lambda>c. c \<noteq> sep) s # Split (drop 1 (dropWhile (\<lambda>c. c \<noteq> sep) s)) sep
      else [s])"
  by (induction s) auto

lemma cut_at_sep:
  assumes "sep \<in> set s"
  shows "s = takeWhile (\<lambda>c. c \<noteq> sep) s @ sep # drop 1 (dropWhile (\<lambda>c. c \<noteq> sep) s)"
proof -
  have ne: "dropWhile (\<lambda>c. c \<noteq> sep) s \<noteq> []" using assms by (simp add: dropWhile_eq_Nil_conv)
  then have "hd (dropWhile (\<lambda>c. c \<noteq> sep) s) = sep" using hd_dropWhile [OF ne] by simp
  with ne have "dropWhile (\<lambda>c. c \<noteq> sep) s = sep # drop 1 (dropWhile (\<lambda>c. c \<noteq> sep) s)"
    by (cases "dropWhile (\<lambda>c. c \<noteq> sep) s") simp_all
  then show ?thesis by (metis takeWhile_dropWhile_id)
qed

lemma ValidString_cut:
  assumes "ValidString s" "sep \<in> set s" "byte sep < 0x80"
  shows "ValidString (takeWhile (\<lambda>c. c \<noteq> sep) s)"
    and "ValidString (drop 1 (dropWhile (\<lambda>c. c \<noteq> sep) s))"
  using ValidString_split [of "takeWhile (\<lambda>c. c \<noteq> sep) s" sep
      "drop 1 (dropWhile (\<lambda>c. c \<noteq> sep) s)"] cut_at_sep [OF assms(2)] assms(1,3)
  by simp_all

lemma Split_valid:
  "ValidString s \<Longrightarrow> byte sep < 0x80 \<Longrightarrow> \<forall>x \<in> set (Split s sep). ValidString x"
proof (induction "length s" arbitrary: s rule: less_induct)
  case less
  show ?case
  proof (cases "sep \<in> set s")
    case False
    then show ?thesis using less.prems(1) by (subst Split_unfold) simp
  next
    case True
    let ?r = "drop 1 (dropWhile (\<lambda>c. c \<noteq> sep) s)"
    have "length s = length (takeWhile (\<lambda>c. c \<noteq> sep) s) + Suc (length ?r)"
      using cut_at_sep [OF True] by (metis length_append length_Cons)
    then have "length ?r < length s" by simp
    from less.hyps [OF this ValidString_cut(2) [OF less.prems(1) True less.prems(2)] less.prems(2)]
      ValidString_cut(1) [OF less.prems(1) True less.prems(2)] True
    show ?thesis by (subst Split_unfold) simp
  qed
qed

lemma component_step_total:
  assumes "ValidString component" "component \<noteq> []"
  shows "\<exists>r. component_step ops statType st component = Some r"
proof -
  obtain c0 rest where c: "component = c0 # rest" using assms(2) by (cases component) auto
  obtain v0 m labels tr where st: "st = (v0, m, labels, tr)" by (metis prod_cases4)
  show ?thesis
  proof (cases "c0 = CHR ''#''")
    case True
    then have "ValidString ([] @ c0 # rest)" "byte c0 < 0x80" using assms(1) c by simp_all
    then have "ValidString rest" by (blast dest: ValidString_split)
    from parseDogStatsDTags_total [OF this, of labels]
    show ?thesis using True c st by (auto simp add: component_step_def)
  next
    case False
    then show ?thesis using c st by (simp add: component_step_def Let_def split_def)
  qed
qed

lemma components_loop_total:
  "\<forall>c \<in> set cs. ValidString c \<and> c \<noteq> [] \<Longrightarrow>
   \<exists>r. components_loop ops statType cs st = Some r"
proof (induction cs arbitrary: st)
  case Nil
  show ?case by (rule exI [of _ st]) simp
next
  case (Cons c cs)
  then have "ValidString c" "c \<noteq> []" by simp_all
  from component_step_total [OF this, of ops statType st]
  obtain st' where "component_step ops statType st c = Some st'" ..
  moreover from Cons have "\<exists>r. components_loop ops statType cs st' = Some r" by simp
  ultimately show ?case by simp
qed

lemma sampleToEvents_total:
  assumes v: "ValidString sample"
  shows "\<exists>r. sampleToEvents ops metric labels sample = Some r"
proof -
  let ?cs = "Split sample CHR ''|''"
  let ?st = "(fst (f_parse ops (?cs ! 0)), 1 :: int, labels, [] :: stat list)"
  have vs: "\<forall>x \<in> set ?cs. ValidString x" using v by (intro Split_valid) simp_all
  show ?thesis
  proof (cases "3 \<le> length ?cs \<and> \<not> list_ex (\<lambda>component. length component = 0) (drop 2 ?cs)")
    case True
    then have "\<forall>c \<in> set (drop 2 ?cs). ValidString c \<and> c \<noteq> []"
      using vs by (auto simp add: list_ex_iff dest: in_set_dropD)
    from components_loop_total [OF this, of ops "?cs ! 1" ?st]
    obtain r where "components_loop ops (?cs ! 1) (drop 2 ?cs) ?st = Some r" ..
    then show ?thesis
      by (cases r) (auto simp add: sampleToEvents_def Let_def split_def)
  next
    case False
    then show ?thesis
      by (auto simp add: sampleToEvents_def Let_def split_def)
  qed
qed

lemma samples_loop_total:
  "\<forall>s \<in> set samples. ValidString s \<Longrightarrow> \<exists>r. samples_loop ops metric samples st = Some r"
proof (induction samples arbitrary: st)
  case Nil
  show ?case by (rule exI [of _ st]) simp
next
  case (Cons s samples)
  obtain events labels tr where st: "st = (events, labels, tr)" by (metis prod_cases3)
  from Cons.prems have "ValidString s" by simp
  from sampleToEvents_total [OF this, of ops metric labels]
  obtain r where r: "sampleToEvents ops metric labels s = Some r" ..
  obtain e' l' t' where r': "r = (e', l', t')" by (metis prod_cases3)
  from Cons have "\<exists>r. samples_loop ops metric samples (events @ e', l', tr @ t') = Some r"
    by simp
  then show ?case using st r r' by simp
qed

lemma lineToEvents_total: "\<exists>r. lineToEvents ops line = Some r"
proof (cases "line = [] \<or> length (SplitN2 line CHR '':'') < 2 \<or>
              length (SplitN2 line CHR '':'' ! 0) = 0 \<or> \<not> ValidString line")
  case True
  then show ?thesis by (auto simp add: lineToEvents_def Let_def)
next
  case False
  then have v: "ValidString line" and c: "CHR '':'' \<in> set line"
    by (auto simp add: SplitN2_def split: if_splits)
  let ?e0 = "takeWhile (\<lambda>c. c \<noteq> CHR '':'') line"
  let ?e1 = "drop 1 (dropWhile (\<lambda>c. c \<noteq> CHR '':'') line)"
  have el: "SplitN2 line CHR '':'' = [?e0, ?e1]" using c by (simp add: SplitN2_def)
  have v0: "ValidString ?e0" and v1: "ValidString ?e1"
    using ValidString_cut [OF v c] by simp_all
  from parseNameAndTags_total [OF v0, of "[]"]
  obtain metric labels tr where p: "parseNameAndTags ?e0 [] = Some (metric, labels, tr)"
    by auto
  let ?samples = "if Contains ?e1 ''|#'' then [?e1] else Split ?e1 CHR '':''"
  have "\<forall>s \<in> set ?samples. ValidString s"
    using v1 Split_valid [OF v1, of "CHR '':''"] by simp
  from samples_loop_total [OF this, of ops metric "([], labels, tr)"]
  obtain r where r: "samples_loop ops metric ?samples ([], labels, tr) = Some r" ..
  show ?thesis
    using False el p r by (cases r) (auto simp add: lineToEvents_def Let_def)
qed

subsection \<open>The counters a function can increment\<close>

lemma parseTag_stats:
  "parseTag component tag separator labels = Some (labels', tr) \<Longrightarrow> set tr \<subseteq> {TagErrors}"
  by (auto simp add: parseTag_def split: if_splits option.splits bind_splits prod.splits)

lemma tags_loop_stats:
  "tags_loop pre separator component ics (lst, labels, tr) = Some (lst', labels', tr') \<Longrightarrow>
   set tr' \<subseteq> set tr \<union> {TagErrors}"
proof (induction ics arbitrary: lst labels tr)
  case Nil
  then show ?case by auto
next
  case (Cons ic ics)
  obtain i c where ic: "ic = (i, c)" by (cases ic)
  show ?case
  proof (cases "c = rune_of CHR '',''")
    case False
    then show ?thesis using Cons ic by simp
  next
    case True
    from Cons.prems ic True obtain tag labels1 tr1 where
      "parseTag component (pre tag) separator labels = Some (labels1, tr1)"
      "tags_loop pre separator component ics (i + 1, labels1, tr @ tr1) = Some (lst', labels', tr')"
      by (auto split: bind_splits)
    from parseTag_stats [OF this(1)] Cons.IH [OF this(2)] show ?thesis by auto
  qed
qed

lemma parseTags_stats:
  assumes "parseTags pre separator component labels = Some (labels', tr)"
  shows "set tr \<subseteq> {TagErrors}"
proof -
  from assms obtain lst labels1 tr1 where
    l: "tags_loop pre separator component (range_string component) (0, labels, []) =
          Some (lst, labels1, tr1)"
    by (auto simp add: parseTags_def split: bind_splits)
  from tags_loop_stats [OF l] have t1: "set tr1 \<subseteq> {TagErrors}" by simp
  show ?thesis
  proof (cases "lst < length component")
    case False
    then show ?thesis using assms l t1 by (simp add: parseTags_def)
  next
    case True
    with assms l obtain tag tr2 where
      "parseTag component (pre tag) separator labels1 = Some (labels', tr2)" "tr = tr1 @ tr2"
      by (auto simp add: parseTags_def split: bind_splits)
    from parseTag_stats [OF this(1)] this(2) t1 show ?thesis by auto
  qed
qed

lemma parseNameAndTags_stats:
  assumes "parseNameAndTags name labels = Some (metric, labels', tr)"
  shows "set tr \<subseteq> {TagErrors}"
proof (cases "find (\<lambda>(i, c). c = rune_of CHR ''#'' \<or> c = rune_of CHR '','') (range_string name)")
  case None
  then show ?thesis using assms by (simp add: parseNameAndTags_def)
next
  case (Some ic)
  with assms obtain rest where "parseNameTags rest labels = Some (labels', tr)"
    by (auto simp add: parseNameAndTags_def split: bind_splits prod.splits)
  then show ?thesis unfolding parseNameTags_def by (rule parseTags_stats)
qed

lemma component_step_stats:
  assumes "component_step ops statType (v, m, labels, tr) component = Some (v', m', labels', tr')"
  shows "set tr' \<subseteq> set tr \<union> {TagErrors, SampleErrors ''invalid_sample_factor''}"
proof (cases component)
  case Nil
  then show ?thesis using assms by (simp add: component_step_def)
next
  case (Cons c0 rest)
  show ?thesis
  proof (cases "c0 = CHR ''#''")
    case True
    with assms Cons obtain tr1 where
      "parseDogStatsDTags rest labels = Some (labels', tr1)" "tr' = tr @ tr1"
      by (auto simp add: component_step_def split: bind_splits)
    from parseTags_stats [OF this(1) [unfolded parseDogStatsDTags_def]] this(2)
    show ?thesis by auto
  next
    case False
    then show ?thesis
      using assms Cons
      by (auto simp add: component_step_def Let_def split_def split: if_splits)
  qed
qed

lemma components_loop_stats:
  "components_loop ops statType cs (v, m, labels, tr) = Some (v', m', labels', tr') \<Longrightarrow>
   set tr' \<subseteq> set tr \<union> {TagErrors, SampleErrors ''invalid_sample_factor''}"
proof (induction cs arbitrary: v m labels tr)
  case Nil
  then show ?case by auto
next
  case (Cons c cs)
  from Cons.prems obtain v1 m1 l1 t1 where
    s: "component_step ops statType (v, m, labels, tr) c = Some (v1, m1, l1, t1)"
    and l: "components_loop ops statType cs (v1, m1, l1, t1) = Some (v', m', labels', tr')"
    by (auto split: option.splits)
  from component_step_stats [OF s] Cons.IH [OF l] show ?case by auto
qed

lemma build_loop_eq:
  "build_loop n statType metric v rel labels =
     (case buildEvent statType metric v rel labels of
        Inl err \<Rightarrow> ([], replicate n (SampleErrors ''illegal_event''))
      | Inr event \<Rightarrow> (replicate n event, []))"
  by (induction n) (auto split: sum.splits)

definition sample_stats :: "stat set" where
  "sample_stats =
     {SamplesReceived, TagsReceived, TagErrors, SampleErrors ''malformed_component'',
      SampleErrors ''malformed_value'', SampleErrors ''invalid_sample_factor'',
      SampleErrors ''illegal_event''}"

lemma sampleToEvents_alt:
  "sampleToEvents ops metric labels sample =
     (let cs = Split sample CHR ''|'' in
      if length cs < 2 \<or> 4 < length cs
      then Some ([], labels, [SamplesReceived, SampleErrors ''malformed_component''])
      else if snd (f_parse ops (cs ! 0))
      then Some ([], labels, [SamplesReceived, SampleErrors ''malformed_value''])
      else if list_ex (\<lambda>c. c = []) (drop 2 cs)
      then Some ([], labels, [SamplesReceived, SampleErrors ''malformed_component''])
      else
        case components_loop ops (cs ! 1) (drop 2 cs)
               (fst (f_parse ops (cs ! 0)), 1, labels, []) of
          None \<Rightarrow> None
        | Some (v', m, l', tr) \<Rightarrow>
            Some (fst (build_loop (nat m) (cs ! 1) metric v'
                        (Index (cs ! 0) ''+'' = 0 \<or> Index (cs ! 0) ''-'' = 0) l'),
                  l',
                  SamplesReceived # tr @ (if l' \<noteq> [] then [TagsReceived] else []) @
                  snd (build_loop (nat m) (cs ! 1) metric v'
                        (Index (cs ! 0) ''+'' = 0 \<or> Index (cs ! 0) ''-'' = 0) l')))"
proof -
  have e: "length (Split sample CHR ''|'') < 3 \<Longrightarrow> drop 2 (Split sample CHR ''|'') = []"
    by simp
  show ?thesis
    by (cases "3 \<le> length (Split sample CHR ''|'')")
       (auto simp add: sampleToEvents_def Let_def split_def e not_le
          split: option.splits)
qed

lemma sampleToEvents_stats:
  assumes "sampleToEvents ops metric labels sample = Some (events, labels', tr)"
  shows "set tr \<subseteq> sample_stats"
    and "SampleErrors ''malformed_component'' \<in> set tr \<or>
         SampleErrors ''malformed_value'' \<in> set tr \<or>
         SampleErrors ''illegal_event'' \<in> set tr \<Longrightarrow> events = []"
proof -
  let ?cs = "Split sample CHR ''|''"
  let ?rel = "Index (?cs ! 0) ''+'' = 0 \<or> Index (?cs ! 0) ''-'' = 0"
  consider (early) "events = []" "set tr \<subseteq> sample_stats"
    | (late) v' m tr1 where
        "components_loop ops (?cs ! 1) (drop 2 ?cs) (fst (f_parse ops (?cs ! 0)), 1, labels, []) =
           Some (v', m, labels', tr1)"
        "events = fst (build_loop (nat m) (?cs ! 1) metric v' ?rel labels')"
        "tr = SamplesReceived # tr1 @ (if labels' \<noteq> [] then [TagsReceived] else []) @
              snd (build_loop (nat m) (?cs ! 1) metric v' ?rel labels')"
    using assms
    by (auto simp add: sampleToEvents_alt Let_def sample_stats_def
        split: if_splits option.splits)
  note c = this
  show "set tr \<subseteq> sample_stats"
  proof (cases rule: c)
    case early
    then show ?thesis by simp
  next
    case (late v' m tr1)
    from components_loop_stats [OF late(1)]
    have "set tr1 \<subseteq> {TagErrors, SampleErrors ''invalid_sample_factor''}" by simp
    then show ?thesis
      using late(3) by (auto simp add: sample_stats_def build_loop_eq split: sum.splits)
  qed
  show "events = []"
    if "SampleErrors ''malformed_component'' \<in> set tr \<or>
        SampleErrors ''malformed_value'' \<in> set tr \<or>
        SampleErrors ''illegal_event'' \<in> set tr"
  proof (cases rule: c)
    case early
    then show ?thesis by simp
  next
    case (late v' m tr1)
    from components_loop_stats [OF late(1)]
    have "set tr1 \<subseteq> {TagErrors, SampleErrors ''invalid_sample_factor''}" by simp
    then show ?thesis
      using late(2,3) that by (auto simp add: build_loop_eq split: sum.splits if_splits)
  qed
qed

lemma samples_loop_stats:
  "samples_loop ops metric samples (events, labels, tr) = Some (events', labels', tr') \<Longrightarrow>
   set tr' \<subseteq> set tr \<union> sample_stats"
proof (induction samples arbitrary: events labels tr)
  case Nil
  then show ?case by auto
next
  case (Cons s samples)
  from Cons.prems obtain e1 l1 t1 where
    s: "sampleToEvents ops metric labels s = Some (e1, l1, t1)"
    and l: "samples_loop ops metric samples (events @ e1, l1, tr @ t1) =
              Some (events', labels', tr')"
    by (auto split: option.splits)
  from sampleToEvents_stats(1) [OF s] Cons.IH [OF l] show ?case by auto
qed

subsection \<open>The outcomes of a line\<close>

lemma SplitN2_parts:
  "length (SplitN2 line sep) < 2 \<longleftrightarrow> sep \<notin> set line"
  by (simp add: SplitN2_def)

lemma SplitN2_two:
  "\<not> length (SplitN2 line sep) < 2 \<Longrightarrow>
   SplitN2 line sep =
     [takeWhile (\<lambda>c. c \<noteq> sep) line, drop 1 (dropWhile (\<lambda>c. c \<noteq> sep) line)]"
  by (simp add: SplitN2_def split: if_splits)

lemma lineToEvents_accepted:
  assumes "line \<noteq> []" "SplitN2 line CHR '':'' = [name, rest]" "name \<noteq> []" "ValidString line"
    "parseNameAndTags name [] = Some (metric, labels, tr)"
  shows "lineToEvents ops line =
     (if Contains rest ''|#'' \<and> labels \<noteq> []
      then Some ([], tr @ [SampleErrors ''mixed_tagging_styles''])
      else
        case samples_loop ops metric
               (if Contains rest ''|#'' then [rest] else Split rest CHR '':'') ([], labels, tr) of
          None \<Rightarrow> None
        | Some (events, labels', tr') \<Rightarrow> Some (map (with_labels labels') events, tr'))"
  using assms by (simp add: lineToEvents_def Let_def split: option.splits)

lemma lineToEvents_accepted_stats:
  assumes "line \<noteq> []" "SplitN2 line CHR '':'' = [name, rest]" "name \<noteq> []" "ValidString line"
    and r: "lineToEvents ops line = Some (events, tr)"
  shows "SampleErrors ''malformed_line'' \<notin> set tr"
    and "SampleErrors ''mixed_tagging_styles'' \<in> set tr \<Longrightarrow> events = []"
proof -
  have v: "ValidString name"
    using assms(2,4) ValidString_cut(1) [of line "CHR '':''"]
    by (auto simp add: SplitN2_def split: if_splits)
  from parseNameAndTags_total [OF v, of "[]"]
  obtain metric labels tr0 where p: "parseNameAndTags name [] = Some (metric, labels, tr0)"
    by (metis prod_cases3)
  from parseNameAndTags_stats [OF p] have t0: "set tr0 \<subseteq> {TagErrors}" .
  note a = lineToEvents_accepted [OF assms(1-4) p, of ops]
  consider (mixed) "events = []" "tr = tr0 @ [SampleErrors ''mixed_tagging_styles'']"
    | (samples) samples ev labels' where
        "samples_loop ops metric samples ([], labels, tr0) = Some (ev, labels', tr)"
    using r unfolding a by (auto split: if_splits option.splits simp del: samples_loop.simps)
  note c = this
  show "SampleErrors ''malformed_line'' \<notin> set tr"
  proof (cases rule: c)
    case mixed
    then show ?thesis using t0 by auto
  next
    case (samples samples ev labels')
    from samples_loop_stats [OF this] t0 show ?thesis by (auto simp add: sample_stats_def)
  qed
  show "events = []" if "SampleErrors ''mixed_tagging_styles'' \<in> set tr"
  proof (cases rule: c)
    case mixed
    then show ?thesis by simp
  next
    case (samples samples ev labels')
    from samples_loop_stats [OF this] t0 that show ?thesis by (auto simp add: sample_stats_def)
  qed
qed

lemma lineToEvents_line_stats:
  assumes r: "lineToEvents ops line = Some (events, tr)"
  shows "SampleErrors ''malformed_line'' \<in> set tr \<longleftrightarrow>
           line \<noteq> [] \<and> (length (SplitN2 line CHR '':'') < 2 \<or>
             length (SplitN2 line CHR '':'' ! 0) = 0 \<or> \<not> ValidString line)"
    and "SampleErrors ''malformed_line'' \<in> set tr \<Longrightarrow>
           events = [] \<and> tr = [SampleErrors ''malformed_line'']"
    and "SampleErrors ''mixed_tagging_styles'' \<in> set tr \<Longrightarrow> events = []"
proof -
  let ?rej = "length (SplitN2 line CHR '':'') < 2 \<or>
             length (SplitN2 line CHR '':'' ! 0) = 0 \<or> \<not> ValidString line"
  consider (empty) "line = []" "events = []" "tr = []"
    | (rejected) "line \<noteq> []" ?rej "events = []" "tr = [SampleErrors ''malformed_line'']"
    | (accepted) name rest where "line \<noteq> []" "\<not> ?rej" "SplitN2 line CHR '':'' = [name, rest]"
        "name \<noteq> []" "ValidString line"
  proof (cases "line = []")
    case True
    then show ?thesis using r empty by (simp add: lineToEvents_def)
  next
    case ne: False
    show ?thesis
    proof (cases ?rej)
      case True
      then show ?thesis using r ne rejected by (auto simp add: lineToEvents_def Let_def)
    next
      case False
      then show ?thesis using ne accepted SplitN2_two [of line "CHR '':''"] by auto
    qed
  qed
  note c = this
  show "SampleErrors ''malformed_line'' \<in> set tr \<longleftrightarrow> line \<noteq> [] \<and> ?rej"
  proof (cases rule: c)
    case (accepted name rest)
    from lineToEvents_accepted_stats(1) [OF accepted(1,3,4,5) r] accepted(2)
    show ?thesis by simp
  qed simp_all
  show "events = [] \<and> tr = [SampleErrors ''malformed_line'']"
    if "SampleErrors ''malformed_line'' \<in> set tr"
  proof (cases rule: c)
    case (accepted name rest)
    from lineToEvents_accepted_stats(1) [OF accepted(1,3,4,5) r] that
    show ?thesis by simp
  qed (use that in simp_all)
  show "events = []" if "SampleErrors ''mixed_tagging_styles'' \<in> set tr"
  proof (cases rule: c)
    case (accepted name rest)
    from lineToEvents_accepted_stats(2) [OF accepted(1,3,4,5) r that]
    show ?thesis .
  qed simp_all
qed

subsection \<open>A sample with one sampling factor\<close>

definition factor_events ::
  "'f float64_ops \<Rightarrow> string \<Rightarrow> string \<Rightarrow> 'f \<Rightarrow> bool \<Rightarrow> labels \<Rightarrow> 'f \<Rightarrow> 'f Event list" where
  \<comment> \<open>the events that the code builds for a sample \<open>value|type|@f\<close>, from the loop over
      the components and the loop that builds the events: a factor 0 counts as 1; a
      counter has its value divided by the factor; a timer is built \<open>int(1 / f)\<close> times, the
      conversion of the quotient to an \<open>int\<close>; a gauge ignores the factor\<close>
  "factor_events ops statType metric value rel labels f =
     (let f' = (if f_eq ops f (f_lit ops 0) then f_lit ops 1 else f) in
      if statType = ''c'' then [CounterEvent metric (f_quo ops value f') labels]
      else if statType = ''ms'' \<or> statType = ''h'' \<or> statType = ''d''
      then replicate (nat (f_int ops (f_quo ops (f_lit ops 1) f'))) (TimerEvent metric value labels)
      else if statType = ''g'' then [GaugeEvent metric value rel labels]
      else [])"

lemma sample_with_factor:
  assumes s: "Split sample CHR ''|'' = [valueStr, statType, CHR ''@'' # fs]"
    and v: "f_parse ops valueStr = (value, False)" and f: "f_parse ops fs = (p, err)"
    and t: "statType = ''c'' \<or> statType = ''ms'' \<or> statType = ''h'' \<or> statType = ''d'' \<or>
            statType = ''g''"
  shows "sampleToEvents ops metric labels sample =
     Some (factor_events ops statType metric value
             (Index valueStr ''+'' = 0 \<or> Index valueStr ''-'' = 0) labels p,
           labels,
           SamplesReceived # (if err then [SampleErrors ''invalid_sample_factor''] else []) @
           (if labels \<noteq> [] then [TagsReceived] else []))"
  using t
  by (auto simp add: sampleToEvents_alt s v f component_step_def Let_def factor_events_def
      build_loop_eq buildEvent_def)

lemma component_step_factor:
  assumes "f_parse ops fs = (p, err)"
  shows "component_step ops statType (value, m, labels, tr) (CHR ''@'' # fs) =
     (let f' = (if f_eq ops p (f_lit ops 0) then f_lit ops 1 else p) in
      Some (if statType = ''c'' then f_quo ops value f' else value,
            if statType = ''ms'' \<or> statType = ''h'' \<or> statType = ''d''
            then f_int ops (f_quo ops (f_lit ops 1) f') else m,
            labels,
            tr @ (if err then [SampleErrors ''invalid_sample_factor''] else [])))"
  using assms by (auto simp add: component_step_def Let_def)

section \<open>Claims about the line parser\<close>



text \<open>
  C4 (as amended). When a sample carries a sampling factor \<open>@f\<close> that does not parse, the
  counter \<open>invalid_sample_factor\<close> is incremented and the sample is not dropped: the loop
  over its components goes on, with the value that \<open>strconv.ParseFloat\<close> returned beside
  the error as the factor (0 for a syntax error, which then counts as 1). So the sample
  \<open>value|type|@f\<close> still yields the events of its type, one event for a counter or a
  gauge. The claim as stated, that the sample is dropped, fails.
\<close>

theorem invalid_sampling_factor_counted:
  assumes "f_parse ops fs = (p, True)"
  shows "component_step ops statType (value, m, labels, tr) (CHR ''@'' # fs) =
     (let f' = (if f_eq ops p (f_lit ops 0) then f_lit ops 1 else p) in
      Some (if statType = ''c'' then f_quo ops value f' else value,
            if statType = ''ms'' \<or> statType = ''h'' \<or> statType = ''d''
            then f_int ops (f_quo ops (f_lit ops 1) f') else m,
            labels,
            tr @ [SampleErrors ''invalid_sample_factor''])) \<and>
     (Split sample CHR ''|'' = [valueStr, statType, CHR ''@'' # fs] \<and>
      f_parse ops valueStr = (value, False) \<and>
      (statType = ''c'' \<or> statType = ''ms'' \<or> statType = ''h'' \<or> statType = ''d'' \<or>
       statType = ''g'') \<longrightarrow>
      sampleToEvents ops metric labels sample =
        Some (factor_events ops statType metric value
                (Index valueStr ''+'' = 0 \<or> Index valueStr ''-'' = 0) labels p,
              labels,
              SamplesReceived # SampleErrors ''invalid_sample_factor'' #
              (if labels \<noteq> [] then [TagsReceived] else [])) \<and>
      (if statType = ''c'' \<or> statType = ''g''
       then length (factor_events ops statType metric value
              (Index valueStr ''+'' = 0 \<or> Index valueStr ''-'' = 0) labels p) = 1
       else True))"
proof
  show "component_step ops statType (value, m, labels, tr) (CHR ''@'' # fs) =
     (let f' = (if f_eq ops p (f_lit ops 0) then f_lit ops 1 else p) in
      Some (if statType = ''c'' then f_quo ops value f' else value,
            if statType = ''ms'' \<or> statType = ''h'' \<or> statType = ''d''
            then f_int ops (f_quo ops (f_lit ops 1) f') else m,
            labels,
            tr @ [SampleErrors ''invalid_sample_factor'']))"
    using component_step_factor [OF assms, of statType "value" m labels tr] by simp
  show "Split sample CHR ''|'' = [valueStr, statType, CHR ''@'' # fs] \<and>
      f_parse ops valueStr = (value, False) \<and>
      (statType = ''c'' \<or> statType = ''ms'' \<or> statType = ''h'' \<or> statType = ''d'' \<or>
       statType = ''g'') \<longrightarrow>
      sampleToEvents ops metric labels sample =
        Some (factor_events ops statType metric value
                (Index valueStr ''+'' = 0 \<or> Index valueStr ''-'' = 0) labels p,
              labels,
              SamplesReceived # SampleErrors ''invalid_sample_factor'' #
              (if labels \<noteq> [] then [TagsReceived] else [])) \<and>
      (if statType = ''c'' \<or> statType = ''g''
       then length (factor_events ops statType metric value
              (Index valueStr ''+'' = 0 \<or> Index valueStr ''-'' = 0) labels p) = 1
       else True)"
    using sample_with_factor [OF _ _ assms, of sample valueStr statType "value" metric labels]
    by (auto simp add: factor_events_def Let_def)
qed

theorem invalid_sampling_factor_counted_witness:
  "f_parse exact_ops ''x'' = (0, True) \<and>
   sampleToEvents exact_ops ''foo'' [] ''7|g|@x'' =
     Some ([GaugeEvent ''foo'' 7 False []], [],
           [SamplesReceived, SampleErrors ''invalid_sample_factor''])"
proof -
  have s: "Split ''7|g|@x'' CHR ''|'' = [''7'', ''g'', CHR ''@'' # ''x'']" by code_simp
  have v: "f_parse exact_ops ''7'' = (7, False)" by code_simp
  have f: "f_parse exact_ops ''x'' = (0, True)" by code_simp
  have i: "\<not> (Index ''7'' ''+'' = 0 \<or> Index ''7'' ''-'' = 0)" by code_simp
  from invalid_sampling_factor_counted [OF f, of "''g''" 7 _ "[]" _ "''7|g|@x''" "''7''" "''foo''"]
    s v i f
  show ?thesis by (simp add: factor_events_def)
qed

theorem invalid_sampling_factor_not_dropped:
  "lineToEvents exact_ops ''foo:1|c|@abc'' =
     Some ([CounterEvent ''foo'' 1 []],
           [SamplesReceived, SampleErrors ''invalid_sample_factor''])"
  by code_simp



text \<open>
  C6. On a line that is not rejected as malformed, whose remainder after the first
  colon contains \<open>|#\<close>: if the name section gave at least one label, the whole line is
  dropped, with no event and one increment of \<open>mixed_tagging_styles\<close> (after the tag errors
  of the name section); and if it gave none, the remainder is one sample, not split at
  its colons.
\<close>

theorem mixed_tagging_drops_line:
  assumes "line \<noteq> []" "SplitN2 line CHR '':'' = [name, rest]" "name \<noteq> []" "ValidString line"
    and "parseNameAndTags name [] = Some (metric, labels, tr)"
    and "Contains rest ''|#''"
  shows "(labels \<noteq> [] \<longrightarrow>
            lineToEvents ops line = Some ([], tr @ [SampleErrors ''mixed_tagging_styles''])) \<and>
         (labels = [] \<longrightarrow>
            lineToEvents ops line =
              (case sampleToEvents ops metric [] rest of
                 None \<Rightarrow> None
               | Some (events, labels', tr') \<Rightarrow>
                   Some (map (with_labels labels') events, tr @ tr')))"
  using assms(6)
  by (auto simp add: lineToEvents_accepted [OF assms(1-5)] split: option.splits)

theorem mixed_tagging_drops_line_witness:
  "lineToEvents exact_ops ''my.metric,host=a:5|c|#env:prod'' =
     Some ([], [SampleErrors ''mixed_tagging_styles'']) \<and>
   lineToEvents exact_ops ''foo:1|c|#a:b:2|c'' =
     (case sampleToEvents exact_ops ''foo'' [] ''1|c|#a:b:2|c'' of
        None \<Rightarrow> None
      | Some (events, labels', tr') \<Rightarrow> Some (map (with_labels labels') events, [] @ tr'))"
proof -
  have s: "SplitN2 ''my.metric,host=a:5|c|#env:prod'' CHR '':'' =
             [''my.metric,host=a'', ''5|c|#env:prod'']"
    "SplitN2 ''foo:1|c|#a:b:2|c'' CHR '':'' = [''foo'', ''1|c|#a:b:2|c'']"
    by code_simp+
  have v: "ValidString ''my.metric,host=a:5|c|#env:prod''" "ValidString ''foo:1|c|#a:b:2|c''"
    by code_simp+
  have p: "parseNameAndTags ''my.metric,host=a'' [] = Some (''my.metric'', [(''host'', ''a'')], [])"
    "parseNameAndTags ''foo'' [] = Some (''foo'', [], [])"
    by code_simp+
  have c: "Contains ''5|c|#env:prod'' ''|#''" "Contains ''1|c|#a:b:2|c'' ''|#''"
    by code_simp+
  show ?thesis
    using mixed_tagging_drops_line [OF _ s(1) _ v(1) p(1) c(1), of exact_ops]
      mixed_tagging_drops_line [OF _ s(2) _ v(2) p(2) c(2), of exact_ops]
    by simp
qed

text \<open>
  C7 (as amended). A line that is not empty is rejected with reason \<open>malformed_line\<close>
  exactly when it has fewer than two parts around its first colon (it has no colon), or
  its name part is empty, or it is not valid UTF-8; a rejected line yields no event and
  increments \<open>malformed_line\<close> once, and nothing else. The claim as stated fails for the
  empty line, which has fewer than two parts and is returned for without any increment.
\<close>

theorem malformed_line_exactly:
  assumes "line \<noteq> []"
  shows "\<exists>events tr. lineToEvents ops line = Some (events, tr) \<and>
     (SampleErrors ''malformed_line'' \<in> set tr \<longleftrightarrow>
        length (SplitN2 line CHR '':'') < 2 \<or> length (SplitN2 line CHR '':'' ! 0) = 0 \<or>
        \<not> ValidString line) \<and>
     (if SampleErrors ''malformed_line'' \<in> set tr
      then events = [] \<and> tr = [SampleErrors ''malformed_line''] else True)"
proof -
  from lineToEvents_total [of ops line]
  obtain events tr where r: "lineToEvents ops line = Some (events, tr)" by auto
  from lineToEvents_line_stats(1,2) [OF r] assms r show ?thesis by auto
qed

theorem malformed_line_exactly_witness:
  "lineToEvents exact_ops ''foo'' = Some ([], [SampleErrors ''malformed_line'']) \<and>
   length (SplitN2 ''foo'' CHR '':'') < 2 \<and>
   lineToEvents exact_ops '':1|c'' = Some ([], [SampleErrors ''malformed_line'']) \<and>
   length (SplitN2 '':1|c'' CHR '':'' ! 0) = 0"
proof -
  have l: "length (SplitN2 ''foo'' CHR '':'') < 2" "length (SplitN2 '':1|c'' CHR '':'' ! 0) = 0"
    by code_simp+
  have n: "''foo'' \<noteq> []" "'':1|c'' \<noteq> []" by simp_all
  from malformed_line_exactly [OF n(1), of exact_ops] l(1)
  have a: "lineToEvents exact_ops ''foo'' = Some ([], [SampleErrors ''malformed_line''])"
    by (auto split: if_splits)
  from malformed_line_exactly [OF n(2), of exact_ops] l(2)
  have b: "lineToEvents exact_ops '':1|c'' = Some ([], [SampleErrors ''malformed_line''])"
    by (auto split: if_splits)
  from a b l show ?thesis by simp
qed

theorem empty_line_not_counted:
  "length (SplitN2 [] CHR '':'') < 2 \<and> lineToEvents exact_ops [] = Some ([], [])"
  by (simp add: SplitN2_def lineToEvents_def)

text \<open>
  C10. For the empty line \<open>lineToEvents\<close> returns no event and increments no counter,
  \<open>malformed_line\<close> included, although the empty line has fewer than two parts around a
  colon. The empty lines that \<open>handlePacket\<close> gets from cutting a packet at its newlines
  count as lines received and as nothing else: a packet of one newline is two empty
  lines, two empty batches and two increments of \<open>lines_received\<close>.
\<close>

theorem empty_line_ignored:
  "lineToEvents ops [] = Some ([], []) \<and> length (SplitN2 [] CHR '':'') < 2 \<and>
   handlePacket ops [CHR 0x0A] = Some ([[], []], [UdpPackets, LinesReceived, LinesReceived])"
  by (simp add: lineToEvents_def SplitN2_def handlePacket_def)

theorem empty_line_ignored_witness:
  "handlePacket exact_ops [CHR 0x0A] =
     Some ([[], []], [UdpPackets, LinesReceived, LinesReceived])"
  using empty_line_ignored [of exact_ops] by simp

section \<open>Claims about the exporter\<close>

lemma dispatch_timer:
  "dispatch fo mapper reg (TimerEvent n v l) mapping metricName plabels help r =
     (if timer_kind_spec (TimerType mapping) (Defaults_TimerType mapper) = TimerTypeHistogram
      then
        (case getHistogram reg metricName plabels help mapping r of
           (Inr h, r') \<Rightarrow>
             Inr (histogram_Observe reg h (f_quo fo v (f_lit fo 1000)) r', [EventStats ''timer''])
         | (Inl err, r') \<Rightarrow> Inr (r', [ConflictingEventStats ''timer'']))
      else if timer_kind_spec (TimerType mapping) (Defaults_TimerType mapper) = TimerTypeSummary
      then
        (case getSummary reg metricName plabels help mapping r of
           (Inr h, r') \<Rightarrow>
             Inr (summary_Observe reg h (f_quo fo v (f_lit fo 1000)) r', [EventStats ''timer''])
         | (Inl err, r') \<Rightarrow> Inr (r', [ConflictingEventStats ''timer'']))
      else Inl (OsExit 1))"
  by (cases "TimerType mapping"; cases "Defaults_TimerType mapper")
     (simp_all add: dispatch_def timer_kind_spec_def Let_def)

text \<open>
  C8. A timer event that reaches the dispatch of \<open>handleEvent\<close> (its mapping does not drop
  it and, if it matched, has a name; the name escapes to \<open>metricName\<close>) is observed under
  the effective kind: the timer type of its mapping if that is set, else the timer type
  of the mapper's defaults, else summary. Under histogram the lookup is \<open>getHistogram\<close>,
  under summary \<open>getSummary\<close>; if the lookup succeeds, the one update of the registry is the
  observation of the value of the event divided by 1000; if it fails, nothing is
  observed. Any other kind ends the process.
\<close>

theorem timer_observed_in_seconds:
  assumes "lookup_mapping mapper (TimerEvent n v l) = (mapping, mlabels, present)"
    and "Action mapping \<noteq> ActionTypeDrop" and "\<not> (present \<and> Name mapping = [])"
    and "escapeMetricName (if present then Name mapping else n) = Some metricName"
  shows "handleEvent fo mapper reg (TimerEvent n v l) r =
     (let plabels = (if present then merge_labels l mlabels else l);
          help = (if HelpText mapping \<noteq> [] then HelpText mapping else defaultHelp);
          tr0 = (if present then EventsActions (Action mapping) else EventsUnmapped);
          kind = timer_kind_spec (TimerType mapping) (Defaults_TimerType mapper)
      in
      if kind = TimerTypeHistogram then
        (case getHistogram reg metricName plabels help mapping r of
           (Inr h, r') \<Rightarrow>
             Inr (histogram_Observe reg h (f_quo fo v (f_lit fo 1000)) r',
                  [tr0, EventStats ''timer''])
         | (Inl err, r') \<Rightarrow> Inr (r', [tr0, ConflictingEventStats ''timer'']))
      else if kind = TimerTypeSummary then
        (case getSummary reg metricName plabels help mapping r of
           (Inr h, r') \<Rightarrow>
             Inr (summary_Observe reg h (f_quo fo v (f_lit fo 1000)) r',
                  [tr0, EventStats ''timer''])
         | (Inl err, r') \<Rightarrow> Inr (r', [tr0, ConflictingEventStats ''timer'']))
      else Inl (OsExit 1))"
proof (cases present)
  case True
  then show ?thesis
    using assms by (simp add: handleEvent_def dispatch_timer Let_def split: prod.splits sum.splits)
next
  case False
  then show ?thesis
    using assms by (simp add: handleEvent_def dispatch_timer Let_def split: prod.splits sum.splits)
qed

theorem timer_observed_in_seconds_witness:
  "handleEvent exact_ops no_mapper log_registry (TimerEvent ''foo.bar'' 320 []) [] =
     Inr ([GetSummary ''foo_bar'' [], SummaryObserve ''foo_bar'' (8 / 25)],
          [EventsUnmapped, EventStats ''timer'']) \<and>
   handleEvent exact_ops histogram_mapper log_registry (TimerEvent ''api.latency'' 250 []) [] =
     Inr ([GetHistogram ''latency'' [(''service'', ''api'')],
           HistogramObserve ''latency'' (1 / 4)],
          [EventsActions ''map'', EventStats ''timer''])"
proof -
  let ?m = "zero_mapping\<lparr>Match := ''*.latency'', Name := ''latency'', Action := ''map'',
                 TimerType := TimerTypeDefault\<rparr>"
  have l1: "lookup_mapping no_mapper (TimerEvent ''foo.bar'' (320 :: rat) []) =
              (zero_mapping, [], False)"
    by (simp add: lookup_mapping_def no_mapper_def)
  have l2: "lookup_mapping histogram_mapper (TimerEvent ''api.latency'' (250 :: rat) []) =
              (?m, [(''service'', ''api'')], True)"
    by (simp add: lookup_mapping_def histogram_mapper_def)
  have a1: "Action zero_mapping \<noteq> ActionTypeDrop"
    by (simp add: zero_mapping_def ActionTypeDrop_def)
  have a2: "Action ?m \<noteq> ActionTypeDrop" by (simp add: ActionTypeDrop_def)
  have n1: "\<not> (False \<and> Name zero_mapping = [])" by simp
  have n2: "\<not> (True \<and> Name ?m = [])" by simp
  have e1: "escapeMetricName (if False then Name zero_mapping else ''foo.bar'') = Some ''foo_bar''"
    by code_simp
  have e2: "escapeMetricName (if True then Name ?m else ''api.latency'') = Some ''latency''"
    by code_simp
  have k1: "timer_kind_spec (TimerType zero_mapping) (Defaults_TimerType no_mapper) =
              TimerTypeSummary"
    by (simp add: timer_kind_spec_def zero_mapping_def no_mapper_def)
  have k2: "timer_kind_spec TimerTypeDefault (Defaults_TimerType histogram_mapper) =
              TimerTypeHistogram"
    by (simp add: timer_kind_spec_def histogram_mapper_def)
  have q: "f_quo exact_ops 320 (f_lit exact_ops 1000) = 8 / 25"
    "f_quo exact_ops 250 (f_lit exact_ops 1000) = 1 / 4"
    by (simp_all add: exact_ops_def)
  have m: "merge_labels [] [(''service'', ''api'')] = [(''service'', ''api'')]"
    by (simp add: merge_labels_def)
  have h: "HelpText zero_mapping = []" "HelpText ?m = []" by (simp_all add: zero_mapping_def)
  have g1: "getSummary log_registry ''foo_bar'' [] defaultHelp zero_mapping ([] :: rat reg_call list) =
              (Inr ''foo_bar'', [GetSummary ''foo_bar'' []])"
    "summary_Observe log_registry ''foo_bar'' (8 / 25 :: rat) [GetSummary ''foo_bar'' []] =
       [GetSummary ''foo_bar'' [], SummaryObserve ''foo_bar'' (8 / 25)]"
    by (simp_all add: log_registry_def)
  have g2: "getHistogram log_registry ''latency'' [(''service'', ''api'')] defaultHelp ?m
              ([] :: rat reg_call list) =
              (Inr ''latency'', [GetHistogram ''latency'' [(''service'', ''api'')]])"
    "histogram_Observe log_registry ''latency'' (1 / 4 :: rat)
       [GetHistogram ''latency'' [(''service'', ''api'')]] =
       [GetHistogram ''latency'' [(''service'', ''api'')], HistogramObserve ''latency'' (1 / 4)]"
    by (simp_all add: log_registry_def)
  have r1: "handleEvent exact_ops no_mapper log_registry (TimerEvent ''foo.bar'' 320 []) [] =
     Inr ([GetSummary ''foo_bar'' [], SummaryObserve ''foo_bar'' (8 / 25)],
          [EventsUnmapped, EventStats ''timer''])"
    unfolding timer_observed_in_seconds [OF l1 a1 n1 e1, of exact_ops log_registry "[]"]
    by (simp add: Let_def k1 q h g1)
  have r2: "handleEvent exact_ops histogram_mapper log_registry
              (TimerEvent ''api.latency'' 250 []) [] =
     Inr ([GetHistogram ''latency'' [(''service'', ''api'')],
           HistogramObserve ''latency'' (1 / 4)],
          [EventsActions ''map'', EventStats ''timer''])"
    unfolding timer_observed_in_seconds [OF l2 a2 n2 e2, of exact_ops log_registry "[]"]
    by (simp add: Let_def k2 q h m g2)
  from r1 r2 show ?thesis by simp
qed




end
